theory Spec2Isabelle
  imports Main
begin

section \<open>Strings, characters and the regular expressions of the source\<close>

text \<open>
  A JavaScript string is modelled as a \<^typ>\<open>string\<close>, each \<^typ>\<open>char\<close> standing for one
  code unit below 256. Every regular expression of \<^verbatim>\<open>utils.js\<close> and \<^verbatim>\<open>notation.glob.js\<close>
  becomes a recogniser for the same language; the \<^verbatim>\<open>i\<close> flag is written out in the
  character classes.
\<close>

definition dq :: char where
  "dq = CHR 0x22"

definition sq :: char where
  "sq = CHR 0x27"

definition bq :: char where
  "bq = CHR 0x60"

definition line_terminator :: "char \<Rightarrow> bool" where
  \<comment> \<open>the characters the regular expression dot does not match\<close>
  "line_terminator c = (c = CHR 0x0A \<or> c = CHR 0x0D)"

definition white_space :: "char \<Rightarrow> bool" where
  \<comment> \<open>what \<^verbatim>\<open>trim()\<close> and \<^verbatim>\<open>\s\<close> strip: TAB, LF, VT, FF, CR, SP, NBSP\<close>
  "white_space c = (c \<in> set [CHR 0x09, CHR 0x0A, CHR 0x0B, CHR 0x0C, CHR 0x0D, CHR 0x20, CHR 0xA0])"

definition is_digit :: "char \<Rightarrow> bool" where
  \<comment> \<open>\<^verbatim>\<open>\d\<close>\<close>
  "is_digit c = (c \<in> set ''0123456789'')"

definition var_start :: "char \<Rightarrow> bool" where
  \<comment> \<open>\<^verbatim>\<open>[a-z$_]\<close> under the \<^verbatim>\<open>i\<close> flag\<close>
  "var_start c = (c \<in> set ''abcdefghijklmnopqrstuvwxyzABCDEFGHIJKLMNOPQRSTUVWXYZ$_'')"

definition var_char :: "char \<Rightarrow> bool" where
  \<comment> \<open>\<^verbatim>\<open>[a-z$_\d]\<close> under the \<^verbatim>\<open>i\<close> flag\<close>
  "var_char c = (var_start c \<or> is_digit c)"

definition trim :: "string \<Rightarrow> string" where
  "trim s = rev (dropWhile white_space (rev (dropWhile white_space s)))"

definition VAR :: "string \<Rightarrow> bool" where
  \<comment> \<open>\<^verbatim>\<open>/^[a-z$_][a-z$_\d]*$/i\<close>\<close>
  "VAR s = (case s of [] \<Rightarrow> False | c # cs \<Rightarrow> var_start c \<and> list_all var_char cs)"

definition ARRAY_NOTE :: "string \<Rightarrow> string option" where
  \<comment> \<open>\<^verbatim>\<open>/^\[(\d+)\]$/\<close>, giving the captured digits\<close>
  "ARRAY_NOTE s =
     (case s of
        [] \<Rightarrow> None
      | c # cs \<Rightarrow>
          if c = CHR ''['' \<and> cs \<noteq> [] \<and> last cs = CHR '']'' \<and> butlast cs \<noteq> []
             \<and> list_all is_digit (butlast cs)
          then Some (butlast cs) else None)"

definition WILDCARD :: "string \<Rightarrow> bool" where
  \<comment> \<open>\<^verbatim>\<open>/^(\[\*\]|\*)$/\<close>\<close>
  "WILDCARD s = (s = ''[*]'' \<or> s = ''*'')"

definition ARRAY_GLOB_NOTE :: "string \<Rightarrow> bool" where
  \<comment> \<open>\<^verbatim>\<open>/^\[(\d+|\*)\]$/\<close>\<close>
  "ARRAY_GLOB_NOTE s = (ARRAY_NOTE s \<noteq> None \<or> s = ''[*]'')"

definition NEGATE_ALL :: "string \<Rightarrow> bool" where
  \<comment> \<open>\<^verbatim>\<open>/^!(\*|\[\*\])$/\<close>\<close>
  "NEGATE_ALL s = (s = ''!*'' \<or> s = ''![*]'')"

definition quoted_by :: "char \<Rightarrow> string \<Rightarrow> string option" where
  \<comment> \<open>one alternative of \<^verbatim>\<open>OBJECT_BRACKETS\<close>: \<^verbatim>\<open>^\[q(.*)q\]$\<close>, giving the capture\<close>
  "quoted_by q s =
     (if 4 \<le> length s \<and> take 2 s = [CHR ''['', q] \<and> drop (length s - 2) s = [q, CHR '']'']
         \<and> list_all (\<lambda>c. \<not> line_terminator c) (take (length s - 4) (drop 2 s))
      then Some (take (length s - 4) (drop 2 s)) else None)"

text \<open>
  \<^verbatim>\<open>OBJECT_BRACKETS = /^\[(?:'(.*)'|"(.*)"|`(.*)`)\]$/\<close> followed by
  \<^verbatim>\<open>m[1] || m[2] || m[3]\<close>: the capture of the alternative that matched, and
  \<^verbatim>\<open>undefined\<close> (here \<open>Some None\<close>) when that capture is the empty string, which is
  falsy. \<open>None\<close> is no match.
\<close>

definition OBJECT_BRACKETS :: "string \<Rightarrow> string option option" where
  "OBJECT_BRACKETS s =
     (case quoted_by sq s of
        Some m \<Rightarrow> Some (if m = [] then None else Some m)
      | None \<Rightarrow>
         (case quoted_by dq s of
            Some m \<Rightarrow> Some (if m = [] then None else Some m)
          | None \<Rightarrow>
             (case quoted_by bq s of
                Some m \<Rightarrow> Some (if m = [] then None else Some m)
              | None \<Rightarrow> None)))"

subsection \<open>The validator\<close>

text \<open>
  \<^verbatim>\<open>reVALIDATOR\<close> is
  \<^verbatim>\<open>^!?(\*|[a-z$_][a-z$_\d]*|\[(\d+|\*|".*"|'.*')\])(\[(\d+|\*|".*"|'.*')\]|\.[a-z$_][a-z$_\d]*|\.\*)*$\<close>
  with the \<^verbatim>\<open>i\<close> flag. Each function below recognises what is left of the expression
  after the part named in its comment, every choice of the backtracking matcher being a
  disjunct: \<open>tails\<close> is \<^verbatim>\<open>(TAIL)*$\<close>, \<open>ident\<close> is \<^verbatim>\<open>[a-z$_\d]*(TAIL)*$\<close>, \<open>digits\<close>
  is \<^verbatim>\<open>\d*\](TAIL)*$\<close> and \<open>quoted q\<close> is \<^verbatim>\<open>.*q\](TAIL)*$\<close>.
\<close>

fun tails :: "string \<Rightarrow> bool"
  and ident :: "string \<Rightarrow> bool"
  and digits :: "string \<Rightarrow> bool"
  and quoted :: "char \<Rightarrow> string \<Rightarrow> bool"
where
  "tails [] = True"
| "tails [c] = False"
| "tails (c # d # r) =
     (if c = CHR ''['' then
        (if is_digit d then digits r
         else if d = CHR ''*'' then (case r of [] \<Rightarrow> False | e # r' \<Rightarrow> e = CHR '']'' \<and> tails r')
         else if d = dq \<or> d = sq then quoted d r
         else False)
      else if c = CHR ''.'' then
        (if var_start d then ident r
         else if d = CHR ''*'' then tails r
         else False)
      else False)"
| "ident [] = True"
| "ident (c # r) = ((var_char c \<and> ident r) \<or> tails (c # r))"
| "digits [] = False"
| "digits (c # r) = ((is_digit c \<and> digits r) \<or> (c = CHR '']'' \<and> tails r))"
| "quoted q [] = False"
| "quoted q [c] = False"
| "quoted q (c # d # r) =
     ((\<not> line_terminator c \<and> quoted q (d # r)) \<or> (c = q \<and> d = CHR '']'' \<and> tails r))"

definition heads :: "string \<Rightarrow> bool" where
  \<comment> \<open>\<^verbatim>\<open>(\*|[a-z$_][a-z$_\d]*|\[(\d+|\*|".*"|'.*')\])(TAIL)*$\<close>\<close>
  "heads s =
     (case s of
        [] \<Rightarrow> False
      | c # r \<Rightarrow>
          if c = CHR ''*'' then tails r
          else if var_start c then ident r
          else if c = CHR ''['' then tails s
          else False)"

definition reVALIDATOR :: "string \<Rightarrow> bool" where
  "reVALIDATOR s = (case s of [] \<Rightarrow> False | c # r \<Rightarrow> (c = CHR ''!'' \<and> heads r) \<or> heads s)"

subsection \<open>The tokenizer\<close>

text \<open>
  \<^verbatim>\<open>reMATCHER = /(\[(\d+|\*|".*"|'.*')\]|[a-z$_][a-z$_\d]*|\*)/gi\<close>. \<open>quoted_close q\<close>
  is the greedy \<^verbatim>\<open>.*q\]\<close> after an opening quote: the matcher first keeps consuming and
  only then closes, so the last \<^verbatim>\<open>q]\<close> of the line wins. It gives the text between the
  quotes and what follows the bracket.
\<close>

fun quoted_close :: "char \<Rightarrow> string \<Rightarrow> (string \<times> string) option" where
  "quoted_close q [] = None"
| "quoted_close q (c # r) =
     (case (if line_terminator c then None else quoted_close q r) of
        Some (inner, rest) \<Rightarrow> Some (c # inner, rest)
      | None \<Rightarrow>
          (case r of
             [] \<Rightarrow> None
           | d # rest \<Rightarrow> if c = q \<and> d = CHR '']'' then Some ([], rest) else None))"

definition match_note :: "string \<Rightarrow> (string \<times> string) option" where
  \<comment> \<open>one match of \<^verbatim>\<open>reMATCHER\<close> at the start of the string: the note and the rest\<close>
  "match_note s =
     (case s of
        [] \<Rightarrow> None
      | c # r \<Rightarrow>
          if c = CHR ''['' then
            (case r of
               [] \<Rightarrow> None
             | d # r' \<Rightarrow>
                 if is_digit d then
                   (case dropWhile is_digit r' of
                      [] \<Rightarrow> None
                    | e # rest \<Rightarrow>
                        if e = CHR '']'' then Some (c # d # takeWhile is_digit r' @ [e], rest)
                        else None)
                 else if d = CHR ''*'' then
                   (case r' of
                      [] \<Rightarrow> None
                    | e # rest \<Rightarrow> if e = CHR '']'' then Some (''[*]'', rest) else None)
                 else if d = dq \<or> d = sq then
                   (case quoted_close d r' of
                      None \<Rightarrow> None
                    | Some (inner, rest) \<Rightarrow> Some (c # d # inner @ [d, CHR '']''], rest))
                 else None)
          else if var_start c then Some (c # takeWhile var_char r, dropWhile var_char r)
          else if c = CHR ''*'' then Some (''*'', r)
          else None)"

lemma quoted_close_shorter:
  "quoted_close q s = Some (inner, rest) \<Longrightarrow> length rest < length s"
proof (induction s arbitrary: inner)
  case Nil
  then show ?case by simp
next
  case (Cons c r)
  show ?case
  proof (cases "if line_terminator c then None else quoted_close q r")
    case None
    with Cons.prems show ?thesis
      by (cases r) (auto split: if_splits)
  next
    case (Some p)
    obtain i' r' where p: "p = (i', r')" by (cases p)
    with Some have q: "quoted_close q r = Some (i', r')" by (auto split: if_splits)
    from Cons.prems Some p have "r' = rest" by simp
    with Cons.IH [of i'] q show ?thesis by simp
  qed
qed

lemma match_note_shorter:
  assumes m: "match_note s = Some (t, rest)"
  shows "length rest < length s"
proof (cases s)
  case Nil
  with m show ?thesis by (simp add: match_note_def)
next
  case (Cons c r)
  note s = Cons
  show ?thesis
  proof (cases "c = CHR ''[''")
    case False
    with m s length_dropWhile_le [of var_char r] show ?thesis
      by (auto simp: match_note_def split: if_splits)
  next
    case True
    note c = True
    show ?thesis
    proof (cases r)
      case Nil
      with m s c show ?thesis by (simp add: match_note_def)
    next
      case (Cons d r')
      note r = Cons
      show ?thesis
      proof (cases "is_digit d")
        case True
        with m s c r length_dropWhile_le [of is_digit r'] show ?thesis
          by (simp add: match_note_def split: list.splits if_splits)
      next
        case False
        note nd = False
        show ?thesis
        proof (cases "d = CHR ''*''")
          case True
          with m s c r nd show ?thesis
            by (cases r') (simp_all add: match_note_def split: if_splits)
        next
          case False
          show ?thesis
          proof (cases "quoted_close d r'")
            case None
            with m s c r nd False show ?thesis
              by (simp add: match_note_def split: if_splits)
          next
            case (Some p)
            obtain i' rs where p: "p = (i', rs)" by (cases p)
            from quoted_close_shorter [of d r' i' rs] Some p have "length rs < length r'"
              by simp
            moreover from m s c r nd False Some p have "rest = rs"
              by (simp add: match_note_def split: if_splits)
            ultimately show ?thesis using s r by simp
          qed
        qed
      qed
    qed
  qed
qed

function reMATCHER :: "string \<Rightarrow> string list" where
  \<comment> \<open>\<^verbatim>\<open>str.match(reMATCHER)\<close>: all matches from left to right; \<open>[]\<close> stands for \<^verbatim>\<open>null\<close>\<close>
  "reMATCHER [] = []"
| "reMATCHER (c # r) =
     (case match_note (c # r) of
        Some (t, rest) \<Rightarrow> t # reMATCHER rest
      | None \<Rightarrow> reMATCHER r)"
  by pat_completeness auto
termination
proof (relation "measure length")
  show "wf (measure length)" by simp
next
  fix c :: char and r x2 x y
  assume "match_note (c # r) = Some x2" "(x, y) = x2"
  then have "match_note (c # r) = Some (x, y)" by simp
  from match_note_shorter [OF this] show "(y, c # r) \<in> measure length" by simp
next
  fix c :: char and r
  show "(r, c # r) \<in> measure length" by simp
qed

subsection \<open>Wildcards\<close>

text \<open>
  \<^verbatim>\<open>WILDCARDS = /(\*|\[\*\])(?=(?:[^"]|"[^"]*")*$)(?=(?:[^']|'[^']*')*$)/\<close>. The lookahead
  \<^verbatim>\<open>(?:[^q]|q[^q]*q)*$\<close> is \<open>quotes_closed q\<close>; \<open>quote_open q\<close> is the same expression
  after an opening \<open>q\<close>.
\<close>

fun quotes_closed :: "char \<Rightarrow> string \<Rightarrow> bool"
  and quote_open :: "char \<Rightarrow> string \<Rightarrow> bool"
where
  "quotes_closed q [] = True"
| "quotes_closed q (c # r) = (if c = q then quote_open q r else quotes_closed q r)"
| "quote_open q [] = False"
| "quote_open q (c # r) = (if c = q then quotes_closed q r else quote_open q r)"

definition WILDCARDS_here :: "string \<Rightarrow> bool" where
  \<comment> \<open>a match of \<^verbatim>\<open>WILDCARDS\<close> that starts at the first character\<close>
  "WILDCARDS_here s =
     ((take 1 s = ''*'' \<and> quotes_closed dq (drop 1 s) \<and> quotes_closed sq (drop 1 s))
      \<or> (take 3 s = ''[*]'' \<and> quotes_closed dq (drop 3 s) \<and> quotes_closed sq (drop 3 s)))"

fun WILDCARDS :: "string \<Rightarrow> bool" where
  \<comment> \<open>\<^verbatim>\<open>WILDCARDS.test(s)\<close>: a match starting anywhere\<close>
  "WILDCARDS [] = False"
| "WILDCARDS (c # r) = (WILDCARDS_here (c # r) \<or> WILDCARDS r)"

text \<open>
  \<^verbatim>\<open>NON_NEG_WILDCARD_TRAIL = /^(?!!)(.+?)(\.\*|\[\*\])+$/\<close>: \<open>wild_trail\<close> is
  \<^verbatim>\<open>(\.\*|\[\*\])+$\<close> and \<open>lazy_prefix\<close> the lazy \<^verbatim>\<open>(.+?)\<close> in front of it, which
  takes the shortest prefix of at least one character.
\<close>

fun wild_trail :: "string \<Rightarrow> bool" where
  "wild_trail (a # b # r) =
     (if a = CHR ''.'' \<and> b = CHR ''*'' then r = [] \<or> wild_trail r
      else if a = CHR ''['' \<and> b = CHR ''*'' then
        (case r of [] \<Rightarrow> False | c # r' \<Rightarrow> c = CHR '']'' \<and> (r' = [] \<or> wild_trail r'))
      else False)"
| "wild_trail _ = False"

fun lazy_prefix :: "string \<Rightarrow> string option" where
  "lazy_prefix [] = None"
| "lazy_prefix (c # r) =
     (if line_terminator c then None
      else if wild_trail r then Some [c]
      else map_option ((#) c) (lazy_prefix r))"

definition removeTrailingWildcards :: "string \<Rightarrow> string" where
  \<comment> \<open>\<^verbatim>\<open>glob.replace(NON_NEG_WILDCARD_TRAIL, '$1')\<close>\<close>
  "removeTrailingWildcards glob =
     (if take 1 glob = ''!'' then glob
      else (case lazy_prefix glob of Some p \<Rightarrow> p | None \<Rightarrow> glob))"

section \<open>Values, errors and notes\<close>

text \<open>
  Every \<^verbatim>\<open>throw\<close> of the source is a value. The first three constructors are the
  \<^verbatim>\<open>NotationError\<close>s the library raises, told apart by their message
  (\<^verbatim>\<open>Invalid glob notation\<close>, \<^verbatim>\<open>Invalid note\<close>, \<^verbatim>\<open>Integrity failed\<close> with the
  original list); \<open>TypeError\<close> is the engine's own error.
\<close>

datatype error =
    InvalidGlob string
  | InvalidNote string
  | IntegrityFailed "string list"
  | TypeError

definition bindE :: "error + 'a \<Rightarrow> ('a \<Rightarrow> error + 'b) \<Rightarrow> error + 'b" where
  "bindE m f = (case m of Inl e \<Rightarrow> Inl e | Inr x \<Rightarrow> f x)"

text \<open>
  The values a caller can pass where a string is expected. The payload of a number is
  left open (\<open>'n\<close>), with its rendering as a parameter of \<open>ToString\<close>; an object is a
  plain object.
\<close>

datatype 'n jsval =
    JUndefined
  | JNull
  | JBoolean bool
  | JNumber 'n
  | JString string
  | JSymbol
  | JArray "'n jsval list"
  | JObject

fun typeof :: "'n jsval \<Rightarrow> string" where
  "typeof JUndefined = ''undefined''"
| "typeof JNull = ''object''"
| "typeof (JBoolean b) = ''boolean''"
| "typeof (JNumber n) = ''number''"
| "typeof (JString s) = ''string''"
| "typeof JSymbol = ''symbol''"
| "typeof (JArray xs) = ''object''"
| "typeof JObject = ''object''"

fun ToString :: "('n \<Rightarrow> string) \<Rightarrow> 'n jsval \<Rightarrow> error + string"
  and Array_join :: "('n \<Rightarrow> string) \<Rightarrow> 'n jsval list \<Rightarrow> error + string"
where
  "ToString num JUndefined = Inr ''undefined''"
| "ToString num JNull = Inr ''null''"
| "ToString num (JBoolean b) = Inr (if b then ''true'' else ''false'')"
| "ToString num (JNumber n) = Inr (num n)"
| "ToString num (JString s) = Inr s"
| "ToString num JSymbol = Inl TypeError"
| "ToString num (JArray xs) = Array_join num xs"
| "ToString num JObject = Inr ''[object Object]''"
| "Array_join num [] = Inr []"
| "Array_join num (x # xs) =
     bindE (if x = JUndefined \<or> x = JNull then Inr [] else ToString num x)
       (\<lambda>s. if xs = [] then Inr s else bindE (Array_join num xs) (\<lambda>t. Inr (s @ '','' @ t)))"

definition RegExp_test :: "(string \<Rightarrow> bool) \<Rightarrow> ('n \<Rightarrow> string) \<Rightarrow> 'n jsval \<Rightarrow> error + bool" where
  \<comment> \<open>\<^verbatim>\<open>re.test(v)\<close> converts its argument to a string first\<close>
  "RegExp_test re num v = bindE (ToString num v) (\<lambda>s. Inr (re s))"

definition Glob_isValid :: "('n \<Rightarrow> string) \<Rightarrow> 'n jsval \<Rightarrow> error + bool" where
  \<comment> \<open>\<^verbatim>\<open>typeof glob === 'string' && reVALIDATOR.test(glob)\<close>\<close>
  "Glob_isValid num g =
     (if typeof g = ''string'' then RegExp_test reVALIDATOR num g else Inr False)"

definition isValid :: "string \<Rightarrow> bool" where
  \<comment> \<open>\<^verbatim>\<open>Glob.isValid\<close> on a string\<close>
  "isValid g = reVALIDATOR g"


text \<open>
  What \<^verbatim>\<open>utils.normalizeNote\<close> returns: a string, a number, or \<^verbatim>\<open>undefined\<close> for an
  empty quoted key. \<open>strict_equal\<close> is \<^verbatim>\<open>===\<close> on these. \<^verbatim>\<open>parseInt\<close> gives a double; the
  model keeps the exact integer, which is the same below \<open>2^53\<close>.
\<close>

datatype note_value = NUndefined | NStr string | NNum int | NNaN

definition strict_equal :: "note_value \<Rightarrow> note_value \<Rightarrow> bool" where
  "strict_equal x y = (x \<noteq> NNaN \<and> x = y)"

definition decimal :: "string \<Rightarrow> nat" where
  "decimal ds = foldl (\<lambda>n c. 10 * n + (of_char c - 48)) 0 ds"

definition parseInt :: "string \<Rightarrow> int option" where
  \<comment> \<open>\<^verbatim>\<open>parseInt(s, 10)\<close>: white space, a sign, then the leading digits; \<open>None\<close> is NaN\<close>
  "parseInt s =
     (let t = dropWhile white_space s;
          neg = (take 1 t = ''-'');
          u = (if take 1 t = ''-'' \<or> take 1 t = ''+'' then drop 1 t else t);
          ds = takeWhile is_digit u
      in if ds = [] then None
         else Some (if neg then - int (decimal ds) else int (decimal ds)))"

definition normalizeNote :: "string \<Rightarrow> error + note_value" where
  "normalizeNote note =
     (if VAR note then Inr (NStr note)
      else
        (case ARRAY_NOTE note of
           Some ds \<Rightarrow> Inr (case parseInt ds of Some n \<Rightarrow> NNum n | None \<Rightarrow> NNaN)
         | None \<Rightarrow>
            (case OBJECT_BRACKETS note of
               Some m \<Rightarrow> Inr (case m of Some k \<Rightarrow> NStr k | None \<Rightarrow> NUndefined)
             | None \<Rightarrow> Inl (InvalidNote note))))"

fun joinNotes :: "string list \<Rightarrow> string" where
  \<comment> \<open>an empty note is falsy and gives the empty string; a dot goes before a following
      note that is not empty and does not start with a bracket\<close>
  "joinNotes [] = []"
| "joinNotes (current # rest) =
     (if current = [] then []
      else current @
        (case rest of
           [] \<Rightarrow> []
         | next # _ \<Rightarrow> if next = [] then [] else if take 1 next = ''['' then [] else ''.''))
     @ joinNotes rest"

section \<open>Globs\<close>

definition Glob_split :: "string \<Rightarrow> bool \<Rightarrow> error + string list" where
  "Glob_split g normalise =
     (if \<not> isValid g then Inl (InvalidGlob g)
      else
        let neg = (take 1 g = ''!'');
            g' = (if \<not> neg \<and> normalise then removeTrailingWildcards g else g)
        in Inr (reMATCHER (if take 1 g' = ''!'' then drop 1 g' else g')))"

record inspection =
  glob :: string
  absGlob :: string
  isNegated :: bool
  isArrayGlob :: bool

definition Glob_inspect :: "string \<Rightarrow> error + inspection" where
  "Glob_inspect g0 =
     (let g = trim g0 in
      if \<not> isValid g then Inl (InvalidGlob g0)
      else
        let neg = (take 1 g = ''!'');
            g' = (if \<not> neg then removeTrailingWildcards g else g);
            abs = (if neg then drop 1 g' else g')
        in Inr \<lparr> glob = g', absGlob = abs, isNegated = neg,
                 isArrayGlob = (case abs of
                                  c # d # _ \<Rightarrow> c = CHR ''['' \<and> d \<noteq> sq \<and> d \<noteq> dq
                                | _ \<Rightarrow> False) \<rparr>)"

text \<open>
  A \<^verbatim>\<open>Glob\<close> instance: the inspection result and the notes, held in the field \<open>levels\<close>
  (the source's alias of \<^verbatim>\<open>notes\<close>).
\<close>

record Glob = inspection +
  levels :: "string list"

definition Glob_new :: "string \<Rightarrow> error + Glob" where
  \<comment> \<open>the constructor: \<^verbatim>\<open>_inspect\<close>, then \<^verbatim>\<open>Glob.split(ins.absGlob)\<close>\<close>
  "Glob_new g =
     bindE (Glob_inspect g) (\<lambda>ins.
     bindE (Glob_split (absGlob ins) False) (\<lambda>ns.
       Inr \<lparr> glob = glob ins, absGlob = absGlob ins, isNegated = isNegated ins,
             isArrayGlob = isArrayGlob ins, levels = ns \<rparr>))"

definition Glob_last :: "Glob \<Rightarrow> string option" where
  \<comment> \<open>\<^verbatim>\<open>this.notes[this.notes.length - 1]\<close>; \<open>None\<close> is \<^verbatim>\<open>undefined\<close>\<close>
  "Glob_last g = (if levels g = [] then None else Some (last (levels g)))"

definition Glob_parent :: "Glob \<Rightarrow> string option" where
  \<comment> \<open>\<^verbatim>\<open>absGlob.slice(0, -last.length).replace(/\.$/, '')\<close>, or \<^verbatim>\<open>null\<close>\<close>
  "Glob_parent g =
     (if 1 < length (levels g) then
        (let l = last (levels g);
             p = (if l = [] then [] else take (length (absGlob g) - length l) (absGlob g))
         in Some (if p \<noteq> [] \<and> last p = CHR ''.'' then butlast p else p))
      else None)"

subsection \<open>Coverage\<close>

definition coversNote :: "string option \<Rightarrow> string option \<Rightarrow> error + bool" where
  \<comment> \<open>\<open>None\<close> is \<^verbatim>\<open>undefined\<close>; it and the empty string are falsy\<close>
  "coversNote a b =
     (case a of
        None \<Rightarrow> Inr False
      | Some a' \<Rightarrow>
         (case b of
            None \<Rightarrow> Inr False
          | Some b' \<Rightarrow>
              if a' = [] \<or> b' = [] then Inr False
              else if a' = ''*'' then Inr (\<not> ARRAY_GLOB_NOTE b')
              else if a' = ''[*]'' then Inr (ARRAY_GLOB_NOTE b')
              else if WILDCARD b' then Inr False
              else bindE (normalizeNote a') (\<lambda>x.
                   bindE (normalizeNote b') (\<lambda>y. Inr (strict_equal x y)))))"

definition matchesNote :: "string option \<Rightarrow> string option \<Rightarrow> error + bool" where
  "matchesNote a b =
     (if a = None \<or> a = Some [] \<or> b = None \<or> b = Some [] then Inr True
      else bindE (coversNote a b) (\<lambda>c. if c then Inr True else coversNote b a))"

text \<open>
  \<^verbatim>\<open>_covers\<close> takes a string, an inspection result or a \<^verbatim>\<open>Glob\<close>. A string is
  turned into a \<^verbatim>\<open>Glob\<close> first; the notes are \<^verbatim>\<open>a.notes || Glob.split(a.absGlob)\<close>.
\<close>

datatype glob_arg = GStr string | GIns inspection | GObj Glob

definition resolve_arg :: "glob_arg \<Rightarrow> error + glob_arg" where
  "resolve_arg x =
     (case x of GStr s \<Rightarrow> bindE (Glob_new s) (\<lambda>g. Inr (GObj g)) | _ \<Rightarrow> Inr x)"

definition arg_isNegated :: "glob_arg \<Rightarrow> bool" where
  "arg_isNegated x =
     (case x of GStr s \<Rightarrow> False | GIns i \<Rightarrow> isNegated i | GObj g \<Rightarrow> isNegated g)"

definition arg_notes :: "glob_arg \<Rightarrow> error + string list" where
  "arg_notes x =
     (case x of
        GStr s \<Rightarrow> Inl (InvalidGlob ''undefined'')
      | GIns i \<Rightarrow> Glob_split (absGlob i) False
      | GObj g \<Rightarrow> Inr (levels g))"

fun covers_loop ::
  "(string option \<Rightarrow> string option \<Rightarrow> error + bool) \<Rightarrow> string list \<Rightarrow> string list \<Rightarrow> error + bool"
where
  \<comment> \<open>the \<^verbatim>\<open>for\<close> loop over \<open>notesA\<close>, \<open>notesB[i]\<close> being \<^verbatim>\<open>undefined\<close> past its end\<close>
  "covers_loop fn [] nb = Inr True"
| "covers_loop fn (a # na) nb =
     bindE (fn (Some a) (case nb of [] \<Rightarrow> None | b # _ \<Rightarrow> Some b))
       (\<lambda>ok. if ok then covers_loop fn na (tl nb) else Inr False)"

definition Glob_covers :: "glob_arg \<Rightarrow> glob_arg \<Rightarrow> bool \<Rightarrow> error + bool" where
  "Glob_covers globA globB match =
     bindE (resolve_arg globA) (\<lambda>a.
     bindE (resolve_arg globB) (\<lambda>b.
     bindE (arg_notes a) (\<lambda>notesA.
     bindE (arg_notes b) (\<lambda>notesB.
       if \<not> match \<and> arg_isNegated a \<and> length notesB < length notesA then Inr False
       else covers_loop (if match then matchesNote else coversNote) notesA notesB))))"

definition covers :: "string \<Rightarrow> string \<Rightarrow> error + bool" where
  \<comment> \<open>\<^verbatim>\<open>new Glob(a).covers(b)\<close>, which is \<^verbatim>\<open>Glob._covers(this, b)\<close>\<close>
  "covers a b = bindE (Glob_new a) (\<lambda>g. Glob_covers (GObj g) (GStr b) False)"

subsection \<open>Intersection\<close>

fun intersect_loop :: "string list \<Rightarrow> string list \<Rightarrow> string list option" where
  \<comment> \<open>the notes pushed to \<open>notesI\<close>; \<open>None\<close> is the \<^verbatim>\<open>break\<close> that empties it\<close>
  "intersect_loop [] [] = Some []"
| "intersect_loop (a # na) [] =
     (if a \<noteq> [] then map_option ((#) a) (intersect_loop na []) else None)"
| "intersect_loop [] (b # nb) =
     (if b \<noteq> [] then map_option ((#) b) (intersect_loop [] nb) else None)"
| "intersect_loop (a # na) (b # nb) =
     (if a = b then map_option ((#) a) (intersect_loop na nb)
      else if a \<noteq> [] \<and> WILDCARD a then
        map_option ((#) (if b = [] then a else b)) (intersect_loop na nb)
      else if b \<noteq> [] \<and> WILDCARD b then
        map_option ((#) (if a = [] then b else a)) (intersect_loop na nb)
      else if a \<noteq> [] \<and> b = [] then map_option ((#) a) (intersect_loop na nb)
      else if a = [] \<and> b \<noteq> [] then map_option ((#) b) (intersect_loop na nb)
      else None)"

definition bang_of :: "string \<Rightarrow> string list \<Rightarrow> string \<Rightarrow> string list \<Rightarrow> bool \<Rightarrow> string" where
  "bang_of globA notesA globB notesB restrictive =
     (if restrictive then
        (if take 1 globA = ''!'' \<or> take 1 globB = ''!'' then ''!'' else [])
      else if take 1 globA = ''!'' \<and> take 1 globB = ''!'' then ''!''
      else if (length notesB < length notesA \<and> take 1 globA = ''!'')
              \<or> (length notesA < length notesB \<and> take 1 globB = ''!'')
      then ''!'' else [])"

definition Glob_intersect :: "string \<Rightarrow> string \<Rightarrow> bool \<Rightarrow> error + string option" where
  \<comment> \<open>\<open>Inr None\<close> is \<^verbatim>\<open>null\<close>\<close>
  "Glob_intersect globA globB restrictive =
     bindE (Glob_split globA True) (\<lambda>notesA.
     bindE (Glob_split globB True) (\<lambda>notesB.
       (case intersect_loop notesA notesB of
          None \<Rightarrow> Inr None
        | Some notesI \<Rightarrow>
            if notesI = [] then Inr None
            else Inr (Some (bang_of globA notesA globB notesB restrictive @ joinNotes notesI)))))"

subsection \<open>Ordering\<close>

definition idxVal :: "string \<Rightarrow> int option" where
  \<comment> \<open>\<^verbatim>\<open>parseInt(note.replace(/[[\]]/, ''), 10)\<close>: only the first bracket is removed\<close>
  "idxVal note =
     parseInt (takeWhile (\<lambda>c. c \<noteq> CHR ''['' \<and> c \<noteq> CHR '']'') note
               @ drop 1 (dropWhile (\<lambda>c. c \<noteq> CHR ''['' \<and> c \<noteq> CHR '']'') note))"

definition compArrIdx :: "string \<Rightarrow> string \<Rightarrow> int" where
  \<comment> \<open>\<^verbatim>\<open>iA > iB ? -1 : 1\<close>, a comparison with NaN being false\<close>
  "compArrIdx lastA lastB =
     (case idxVal lastA of
        None \<Rightarrow> 1
      | Some iA \<Rightarrow> (case idxVal lastB of None \<Rightarrow> 1 | Some iB \<Rightarrow> if iB < iA then - 1 else 1))"

definition test_undefined :: "(string \<Rightarrow> bool) \<Rightarrow> string option \<Rightarrow> bool" where
  \<comment> \<open>\<^verbatim>\<open>re.test(x)\<close> where \<open>x\<close> may be \<^verbatim>\<open>undefined\<close>, which is tested as a string\<close>
  "test_undefined re x = re (case x of None \<Rightarrow> ''undefined'' | Some s \<Rightarrow> s)"

definition compareArrayItemGlobs :: "Glob \<Rightarrow> Glob \<Rightarrow> error + int" where
  "compareArrayItemGlobs a b =
     (if \<not> isNegated a \<or> \<not> isNegated b
         \<or> length (levels a) \<noteq> length (levels b)
         \<or> \<not> test_undefined ARRAY_GLOB_NOTE (Glob_last a)
         \<or> \<not> test_undefined ARRAY_GLOB_NOTE (Glob_last b)
         \<or> Glob_last a = Glob_last b
      then Inr 0
      else if Glob_last a = Some ''[*]'' then Inr 1
      else if Glob_last b = Some ''[*]'' then Inr (- 1)
      else
        (case (Glob_last a, Glob_last b, Glob_parent a, Glob_parent b) of
           (Some la, Some lb, Some pa, Some pb) \<Rightarrow>
             if pa \<noteq> [] \<and> pb \<noteq> [] then
               bindE (Glob_covers (GStr pa) (GStr pb) True)
                 (\<lambda>c. if c then Inr (compArrIdx la lb) else Inr 0)
             else Inr (compArrIdx la lb)
         | (Some la, Some lb, _, _) \<Rightarrow> Inr (compArrIdx la lb)
         | _ \<Rightarrow> Inl TypeError))"

definition wildCount :: "string \<Rightarrow> nat" where
  \<comment> \<open>\<^verbatim>\<open>(absGlob.match(re.WILDCARDS) || []).length\<close>: without the \<^verbatim>\<open>g\<close> flag the match
      array holds the match and its one group\<close>
  "wildCount g = (if WILDCARDS g then 2 else 0)"

fun string_less :: "string \<Rightarrow> string \<Rightarrow> bool" where
  \<comment> \<open>\<^verbatim>\<open><\<close> on strings: by code units\<close>
  "string_less [] [] = False"
| "string_less [] (d # t) = True"
| "string_less (c # s) [] = False"
| "string_less (c # s) (d # t) =
     ((of_char c :: nat) < of_char d \<or> (c = d \<and> string_less s t))"

definition Glob_compare :: "string \<Rightarrow> string \<Rightarrow> error + int" where
  "Glob_compare globA globB =
     (if globA = globB \<or> (WILDCARD globA \<and> WILDCARD globB) then Inr 0
      else
        bindE (Glob_new globA) (\<lambda>a.
        bindE (Glob_new globB) (\<lambda>b.
          if length (levels a) = length (levels b) then
            bindE (compareArrayItemGlobs a b) (\<lambda>aIdxCompare.
              if aIdxCompare \<noteq> 0 then Inr aIdxCompare
              else if wildCount (absGlob a) = wildCount (absGlob b) then
                (if \<not> isNegated a \<and> isNegated b then Inr (- 1)
                 else if isNegated a \<and> \<not> isNegated b then Inr 1
                 else Inr (if string_less (absGlob a) (absGlob b) then - 1
                           else if string_less (absGlob b) (absGlob a) then 1 else 0))
              else Inr (if wildCount (absGlob b) < wildCount (absGlob a) then - 1 else 1))
          else Inr (if length (levels a) < length (levels b) then - 1 else 1))))"

text \<open>
  \<^verbatim>\<open>Array.prototype.sort(comparefn)\<close> is stable, and for a comparator that orders the
  elements consistently its result is the one stable ordering, which this insertion
  sort computes; an error of the comparator ends it. Where a comparator is not
  consistent the language leaves the order to the engine, and the model is only one
  of the allowed outcomes.
\<close>

fun insert_by :: "('a \<Rightarrow> 'a \<Rightarrow> error + int) \<Rightarrow> 'a \<Rightarrow> 'a list \<Rightarrow> error + 'a list" where
  "insert_by cmp x [] = Inr [x]"
| "insert_by cmp x (y # ys) =
     bindE (cmp x y) (\<lambda>v.
       if v \<le> 0 then Inr (x # y # ys)
       else bindE (insert_by cmp x ys) (\<lambda>zs. Inr (y # zs)))"

fun sort_by :: "('a \<Rightarrow> 'a \<Rightarrow> error + int) \<Rightarrow> 'a list \<Rightarrow> error + 'a list" where
  "sort_by cmp [] = Inr []"
| "sort_by cmp (x # xs) = bindE (sort_by cmp xs) (insert_by cmp x)"

definition Glob_sort :: "string list \<Rightarrow> error + string list" where
  "Glob_sort globList = sort_by Glob_compare globList"

definition rx :: "string \<Rightarrow> bool" where
  \<comment> \<open>\<^verbatim>\<open>/^\s*!/\<close>\<close>
  "rx s = (take 1 (dropWhile white_space s) = ''!'')"

definition negFirstSort :: "string \<Rightarrow> string \<Rightarrow> error + int" where
  "negFirstSort a b =
     Inr (if rx a \<and> rx b then (if length b \<le> length a then 1 else - 1)
          else if rx a then - 1
          else if rx b then 1
          else 0)"

definition negLastSort :: "string \<Rightarrow> string \<Rightarrow> error + int" where
  "negLastSort a b =
     Inr (if rx a \<and> rx b then (if length b \<le> length a then 1 else - 1)
          else if rx a then 1
          else if rx b then - 1
          else 0)"

definition isReverseOf :: "inspection \<Rightarrow> inspection \<Rightarrow> bool" where
  "isReverseOf a b = (isNegated a \<noteq> isNegated b \<and> absGlob a = absGlob b)"

definition invert :: "string \<Rightarrow> string" where
  "invert g = (if take 1 g = ''!'' then drop 1 g else ''!'' @ g)"

section \<open>Normalization\<close>

text \<open>
  The two objects the source uses as string sets. \<^verbatim>\<open>ignored\<close> is read with
  \<^verbatim>\<open>ignored[key]\<close>, which also finds what a plain object inherits; \<^verbatim>\<open>intersections\<close> is
  read with \<^verbatim>\<open>Object.keys\<close>, own keys in insertion order, and an assignment to
  \<^verbatim>\<open>__proto__\<close> of a string adds no key.
\<close>

definition Object_prototype_keys :: "string list" where
  "Object_prototype_keys =
     [''constructor'', ''__defineGetter__'', ''__defineSetter__'', ''hasOwnProperty'',
      ''__lookupGetter__'', ''__lookupSetter__'', ''isPrototypeOf'', ''propertyIsEnumerable'',
      ''toString'', ''valueOf'', ''__proto__'', ''toLocaleString'']"

definition is_ignored :: "string list \<Rightarrow> string \<Rightarrow> bool" where
  "is_ignored ig k = (k \<in> set ig \<or> k \<in> set Object_prototype_keys)"

definition add_key :: "string \<Rightarrow> string list \<Rightarrow> string list" where
  "add_key k ks = (if k = ''__proto__'' \<or> k \<in> set ks then ks else ks @ [k])"

record flags =
  duplicate :: bool
  hasExactNeg :: bool
  negCoversPos :: bool
  negCoveredByPos :: bool
  negCoveredByNeg :: bool
  posCoversPos :: bool
  posCoveredByNeg :: bool
  posCoveredByPos :: bool

definition no_flags :: flags where
  "no_flags = \<lparr> duplicate = False, hasExactNeg = False, negCoversPos = False,
                negCoveredByPos = False, negCoveredByNeg = False, posCoversPos = False,
                posCoveredByNeg = False, posCoveredByPos = False \<rparr>"

text \<open>
  What the closures of \<^verbatim>\<open>normalize\<close> share and change: the working \<^verbatim>\<open>list\<close> (spliced in
  place), \<^verbatim>\<open>ignored\<close>, \<^verbatim>\<open>intersections\<close>, \<^verbatim>\<open>normalized\<close> and \<^verbatim>\<open>negateAll\<close>.
\<close>

record nstate =
  list :: "inspection list"
  ignored :: "string list"
  intersections :: "string list"
  normalized :: "string list"
  negateAll :: bool

definition checkAddIntersection ::
  "string list \<Rightarrow> bool \<Rightarrow> string \<Rightarrow> string \<Rightarrow> nstate \<Rightarrow> error + nstate"
where
  \<comment> \<open>\<^verbatim>\<open>list.indexOf(inter)\<close> looks a string up among inspection objects and finds none\<close>
  "checkAddIntersection original restrictive gA gB st =
     bindE (Glob_intersect gA gB restrictive) (\<lambda>inter.
       case inter of
         None \<Rightarrow> Inr st
       | Some i \<Rightarrow>
           if i = [] then Inr st
           else
             let hasInverted = (if restrictive then False else invert i \<in> set original)
             in if hasInverted then Inr st
                else Inr (st \<lparr> intersections := add_key i (intersections st) \<rparr>))"

text \<open>
  The callback of the inner \<^verbatim>\<open>eachRight\<close>, for the glob \<open>a\<close> at \<open>indexA\<close> against the one
  at \<open>indexB\<close>. Its result says whether the loop goes on (\<^verbatim>\<open>return false\<close> ends it).
\<close>

definition inner_body ::
  "string list \<Rightarrow> bool \<Rightarrow> inspection \<Rightarrow> nat \<Rightarrow> nat \<Rightarrow> flags \<times> nstate
     \<Rightarrow> error + (bool \<times> flags \<times> nstate)"
where
  "inner_body original restrictive a indexA indexB fs =
     (let f = fst fs; st = snd fs in
      if indexA = indexB then Inr (True, f, st)
      else if length (list st) \<le> indexB then Inl TypeError
      else
        let b = list st ! indexB in
        if isArrayGlob a \<noteq> isArrayGlob b then Inl (IntegrityFailed original)
        else if glob a = glob b then
          Inr (False, f \<lparr> duplicate := True \<rparr>,
               st \<lparr> list := take indexA (list st) @ drop (Suc indexA) (list st) \<rparr>)
        else if \<not> isNegated a \<and> isReverseOf a b then
          Inr (False, f \<lparr> hasExactNeg := True \<rparr>, st \<lparr> ignored := glob a # ignored st \<rparr>)
        else if is_ignored (ignored st) (glob b) then Inr (True, f, st)
        else
          bindE (Glob_covers (GIns a) (GIns b) False) (\<lambda>coversB.
          bindE (if coversB then Inr False else Glob_covers (GIns b) (GIns a) False) (\<lambda>coveredByB.
            if isNegated a then
              (if isNegated b then
                 (if coveredByB then
                    Inr (False, f \<lparr> negCoveredByNeg := True \<rparr>,
                         st \<lparr> ignored := glob a # ignored st \<rparr>)
                  else Inr (True, f, st))
               else
                 (let f1 = (if coversB then f \<lparr> negCoversPos := True \<rparr> else f);
                      f2 = (if coveredByB then f1 \<lparr> negCoveredByPos := True \<rparr> else f1)
                  in if \<not> coversB \<and> \<not> coveredByB then
                       bindE (checkAddIntersection original restrictive (glob a) (glob b) st)
                         (\<lambda>st'. Inr (True, f2, st'))
                     else Inr (True, f2, st)))
            else
              (if isNegated b then
                 (if coveredByB then
                    (if restrictive then
                       Inr (False, f \<lparr> posCoveredByNeg := True \<rparr>,
                            st \<lparr> ignored := glob a # ignored st \<rparr>)
                     else Inr (True, f \<lparr> posCoveredByNeg := True \<rparr>, st))
                  else if \<not> coversB \<and> \<not> coveredByB then
                    bindE (checkAddIntersection original restrictive (glob a) (glob b) st)
                      (\<lambda>st'. Inr (True, f, st'))
                  else Inr (True, f, st))
               else
                 (let f1 = (if coversB then f \<lparr> posCoversPos := True \<rparr> else f)
                  in if coveredByB then
                       (if restrictive then Inr (False, f1 \<lparr> posCoveredByPos := True \<rparr>, st)
                        else Inr (True, f1 \<lparr> posCoveredByPos := True \<rparr>, st))
                     else Inr (True, f1, st))))))"

fun inner_loop ::
  "string list \<Rightarrow> bool \<Rightarrow> inspection \<Rightarrow> nat \<Rightarrow> nat \<Rightarrow> flags \<times> nstate \<Rightarrow> error + flags \<times> nstate"
where
  \<comment> \<open>\<^verbatim>\<open>eachRight\<close>: \<^verbatim>\<open>while (index--)\<close> from the length of the list\<close>
  "inner_loop original restrictive a indexA 0 fs = Inr fs"
| "inner_loop original restrictive a indexA (Suc indexB) fs =
     bindE (inner_body original restrictive a indexA indexB fs) (\<lambda>r.
       if fst r then inner_loop original restrictive a indexA indexB (snd r)
       else Inr (snd r))"

definition keep_glob :: "bool \<Rightarrow> inspection \<Rightarrow> flags \<Rightarrow> bool" where
  "keep_glob restrictive a f =
     (let keepNeg =
            (if restrictive
             then (negCoversPos f \<or> negCoveredByPos f) \<and> negCoveredByNeg f = False
             else negCoveredByPos f \<and> negCoveredByNeg f = False);
          keepPos =
            (if restrictive
             then (posCoversPos f \<or> posCoveredByPos f = False) \<and> posCoveredByNeg f = False
             else posCoveredByNeg f \<or> posCoveredByPos f = False)
      in duplicate f = False \<and> hasExactNeg f = False
         \<and> (if isNegated a then keepNeg else keepPos))"

definition outer_body ::
  "string list \<Rightarrow> bool \<Rightarrow> nat \<Rightarrow> nstate \<Rightarrow> error + (bool \<times> nstate)"
where
  "outer_body original restrictive indexA st =
     (if length (list st) \<le> indexA then Inl TypeError
      else
        let a = list st ! indexA;
            st1 = (if NEGATE_ALL (glob a) then st \<lparr> negateAll := True \<rparr> else st)
        in if NEGATE_ALL (glob a) \<and> restrictive then Inr (False, st1)
           else
             bindE (inner_loop original restrictive a indexA (length (list st1)) (no_flags, st1))
               (\<lambda>r. let f = fst r; st2 = snd r in
                  if keep_glob restrictive a f
                  then Inr (True, st2 \<lparr> normalized := normalized st2 @ [glob a] \<rparr>)
                  else Inr (True, st2 \<lparr> ignored := glob a # ignored st2 \<rparr>)))"

fun outer_loop :: "string list \<Rightarrow> bool \<Rightarrow> nat \<Rightarrow> nstate \<Rightarrow> error + nstate" where
  "outer_loop original restrictive 0 st = Inr st"
| "outer_loop original restrictive (Suc indexA) st =
     bindE (outer_body original restrictive indexA st) (\<lambda>r.
       if fst r then outer_loop original restrictive indexA (snd r)
       else Inr (snd r))"

fun map_inspect :: "string list \<Rightarrow> error + inspection list" where
  \<comment> \<open>\<^verbatim>\<open>.map(_inspect)\<close>: the first invalid glob throws\<close>
  "map_inspect [] = Inr []"
| "map_inspect (g # gs) =
     bindE (Glob_inspect g) (\<lambda>i. bindE (map_inspect gs) (\<lambda>is. Inr (i # is)))"

text \<open>
  One run of the body of \<^verbatim>\<open>normalize\<close> up to its last two statements: either the result
  is there (\<open>Done\<close>), or the body calls \<^verbatim>\<open>Glob.normalize\<close> again on the list it built
  (\<open>Again\<close>), or the final list is still to be sorted (\<open>Sort\<close>).
\<close>

datatype pass = Done "string list" | Again "string list" | Sort "string list"

definition normalize_pass :: "string list \<Rightarrow> bool \<Rightarrow> error + pass" where
  "normalize_pass original restrictive =
     (if original = [] then Inr (Done [])
      else
        bindE (sort_by (if restrictive then negFirstSort else negLastSort) original) (\<lambda>sorted.
        bindE (map_inspect sorted) (\<lambda>l.
          if length l = 1 then
            (let g = hd l in if isNegated g then Inr (Done []) else Inr (Done [glob g]))
          else
            bindE (outer_loop original restrictive (length l)
                     \<lparr> list = l, ignored = [], intersections = [], normalized = [],
                       negateAll = False \<rparr>) (\<lambda>st.
              if restrictive \<and> negateAll st then Inr (Done [])
              else if intersections st \<noteq> [] then Inr (Again (normalized st @ intersections st))
              else Inr (Sort (normalized st))))))"

text \<open>
  \<^verbatim>\<open>Glob.normalize\<close> calls itself until a pass adds no intersection. Nothing in the
  source bounds the number of passes, so a run that never ends is the value \<open>None\<close>.
\<close>

partial_function (option) Glob_normalize :: "string list \<Rightarrow> bool \<Rightarrow> (error + string list) option"
where
  "Glob_normalize globList restrictive =
     (case normalize_pass globList restrictive of
        Inl e \<Rightarrow> Some (Inl e)
      | Inr (Done r) \<Rightarrow> Some (Inr r)
      | Inr (Sort r) \<Rightarrow> Some (Glob_sort r)
      | Inr (Again l) \<Rightarrow> Glob_normalize l restrictive)"

declare Glob_normalize.simps [code]

section \<open>Normalization on arrays in a store\<close>

text \<open>
  To say what a call does to the caller's array, the arrays are put in a store: a list of
  cells, an array being referred to by its index, and a new array taking a new index.
  \<^verbatim>\<open>utils.ensureArray\<close> gives back the very array it is given; \<^verbatim>\<open>original.concat()\<close> is a
  new array with the same elements, which \<^verbatim>\<open>.sort\<close> then sorts in place;
  \<^verbatim>\<open>.map(_inspect)\<close>, \<^verbatim>\<open>[]\<close>, \<^verbatim>\<open>[g.glob]\<close> and \<^verbatim>\<open>normalized.concat(intersections)\<close> are new
  arrays; \<^verbatim>\<open>Glob.sort(normalized)\<close> sorts \<^verbatim>\<open>normalized\<close> in place and returns it. The loop
  changes only \<^verbatim>\<open>list\<close> and \<^verbatim>\<open>normalized\<close>, whose contents after the loop are stored in their
  cells, and reads \<^verbatim>\<open>original\<close>.
\<close>

datatype cell = Strings "string list" | Inspections "inspection list"

type_synonym heap = "cell list"

definition alloc :: "heap \<Rightarrow> cell \<Rightarrow> nat \<times> heap" where
  "alloc h c = (length h, h @ [c])"

definition strings_at :: "heap \<Rightarrow> nat \<Rightarrow> string list option" where
  "strings_at h p =
     (if p < length h then (case h ! p of Strings xs \<Rightarrow> Some xs | Inspections is \<Rightarrow> None)
      else None)"

datatype heap_pass = Return nat | Recurse nat

definition finish_pass :: "heap \<Rightarrow> nat \<Rightarrow> nat \<Rightarrow> bool \<Rightarrow> nstate \<Rightarrow> (error + heap_pass) \<times> heap" where
  \<comment> \<open>after the loop: \<open>lr\<close> and \<open>nr\<close> are the arrays \<^verbatim>\<open>list\<close> and \<^verbatim>\<open>normalized\<close>\<close>
  "finish_pass h4 lr nr restrictive st =
     (let h5 = h4[lr := Inspections (list st), nr := Strings (normalized st)] in
      if restrictive \<and> negateAll st then
        (case alloc h5 (Strings []) of (q, h6) \<Rightarrow> (Inr (Return q), h6))
      else if intersections st \<noteq> [] then
        (case alloc h5 (Strings (normalized st @ intersections st)) of
           (m, h6) \<Rightarrow> (Inr (Recurse m), h6))
      else
        (case Glob_sort (normalized st) of
           Inl e \<Rightarrow> (Inl e, h5)
         | Inr s \<Rightarrow> (Inr (Return nr), h5[nr := Strings s])))"

definition scan_pass :: "heap \<Rightarrow> string list \<Rightarrow> bool \<Rightarrow> inspection list \<Rightarrow> (error + heap_pass) \<times> heap" where
  \<comment> \<open>from \<^verbatim>\<open>.map(_inspect)\<close> on: the new array \<^verbatim>\<open>list\<close>, the early return, the loop\<close>
  "scan_pass h2 original restrictive l =
     (case alloc h2 (Inspections l) of
        (lr, h3) \<Rightarrow>
          if length l = 1 then
            (case alloc h3 (Strings (if isNegated (hd l) then [] else [glob (hd l)])) of
               (q, h4) \<Rightarrow> (Inr (Return q), h4))
          else
            (case alloc h3 (Strings []) of
               (nr, h4) \<Rightarrow>
                 (case outer_loop original restrictive (length l)
                         \<lparr> list = l, ignored = [], intersections = [], normalized = [],
                           negateAll = False \<rparr> of
                    Inl e \<Rightarrow> (Inl e, h4)
                  | Inr st \<Rightarrow> finish_pass h4 lr nr restrictive st)))"

definition normalize_heap_pass :: "heap \<Rightarrow> nat \<Rightarrow> bool \<Rightarrow> (error + heap_pass) \<times> heap" where
  "normalize_heap_pass h p restrictive =
     (case strings_at h p of
        None \<Rightarrow> (Inl TypeError, h)
      | Some original \<Rightarrow>
          if original = [] then
            (case alloc h (Strings []) of (q, h1) \<Rightarrow> (Inr (Return q), h1))
          else
            (case alloc h (Strings original) of
               (c, h1) \<Rightarrow>
                 (case sort_by (if restrictive then negFirstSort else negLastSort) original of
                    Inl e \<Rightarrow> (Inl e, h1)
                  | Inr ordered \<Rightarrow>
                      (case map_inspect ordered of
                         Inl e \<Rightarrow> (Inl e, h1[c := Strings ordered])
                       | Inr l \<Rightarrow> scan_pass (h1[c := Strings ordered]) original restrictive l))))"

partial_function (option) normalize_heap ::
  "heap \<Rightarrow> nat \<Rightarrow> bool \<Rightarrow> ((error + nat) \<times> heap) option"
where
  "normalize_heap h p restrictive =
     (case normalize_heap_pass h p restrictive of
        (Inl e, h') \<Rightarrow> Some (Inl e, h')
      | (Inr (Return q), h') \<Rightarrow> Some (Inr q, h')
      | (Inr (Recurse m), h') \<Rightarrow> normalize_heap h' m restrictive)"

declare normalize_heap.simps [code]

text \<open>
  The first \<open>n\<close> passes of a call, whether or not the call ever ends: the result is
  there, or the next call of \<^verbatim>\<open>Glob.normalize\<close> is about to be made on the array
  \<open>Recurse m\<close>.
\<close>

fun normalize_heap_run :: "nat \<Rightarrow> heap \<Rightarrow> nat \<Rightarrow> bool \<Rightarrow> (error + heap_pass) \<times> heap" where
  "normalize_heap_run 0 h p restrictive = (Inr (Recurse p), h)"
| "normalize_heap_run (Suc n) h p restrictive =
     (case normalize_heap_pass h p restrictive of
        (x, h') \<Rightarrow>
          (case x of
             Inr (Recurse m) \<Rightarrow> normalize_heap_run n h' m restrictive
           | _ \<Rightarrow> (x, h')))"

text \<open>The store \<open>h'\<close> extends \<open>h\<close>; a pass on the store agrees with the pass on the contents.\<close>

definition extends :: "heap \<Rightarrow> heap \<Rightarrow> bool" where
  \<comment> \<open>every array of \<open>h\<close> is in \<open>h'\<close> at its place and unchanged; \<open>h'\<close> may hold new ones\<close>
  "extends h h' = (length h \<le> length h' \<and> take (length h) h' = h)"

definition agrees :: "heap \<Rightarrow> (error + heap_pass) \<times> heap \<Rightarrow> error + pass \<Rightarrow> bool" where
  \<comment> \<open>a pass on the heap gives what the pass on the contents gives, in a new array\<close>
  "agrees h rh pp =
     (case pp of
        Inl e \<Rightarrow> fst rh = Inl e
      | Inr (Done xs) \<Rightarrow>
          (\<exists>q. fst rh = Inr (Return q) \<and> length h \<le> q \<and> strings_at (snd rh) q = Some xs)
      | Inr (Again xs) \<Rightarrow>
          (\<exists>m. fst rh = Inr (Recurse m) \<and> length h \<le> m \<and> strings_at (snd rh) m = Some xs)
      | Inr (Sort xs) \<Rightarrow>
          (case Glob_sort xs of
             Inl e \<Rightarrow> fst rh = Inl e
           | Inr s \<Rightarrow>
               (\<exists>q. fst rh = Inr (Return q) \<and> length h \<le> q \<and> strings_at (snd rh) q = Some s)))"

definition frame_ok :: "heap \<Rightarrow> nat \<Rightarrow> bool \<Rightarrow> (error + nat) \<times> heap \<Rightarrow> bool" where
  \<comment> \<open>what a finished call leaves: the old arrays as they were, the result in a new one,
      and the result the one of \<open>Glob_normalize\<close> on the contents of the input\<close>
  "frame_ok h p r y =
     (\<forall>L. strings_at h p = Some L \<longrightarrow>
        extends h (snd y)
        \<and> (case fst y of
             Inl e \<Rightarrow> Glob_normalize L r = Some (Inl e)
           | Inr q \<Rightarrow> length h \<le> q
                      \<and> (\<exists>xs. strings_at (snd y) q = Some xs
                               \<and> Glob_normalize L r = Some (Inr xs))))"

section \<open>Predicates for the statements and proofs\<close>






text \<open>Three lists that \<^verbatim>\<open>normalize\<close> turns into each other in loose mode.\<close>

definition cycling :: "string list \<Rightarrow> bool \<Rightarrow> bool" where
  "cycling L r = (\<not> r \<and> (L = [''x'', ''*.y'', ''!*.y.z'']
                          \<or> L = [''!*.y.z'', ''*.y'', ''x'', ''!x.y.z'']
                          \<or> L = [''!*.y.z'', ''x'', ''*.y'', ''!x.y.z'']))"

text \<open>The characters a valid glob can end with.\<close>

definition note_end :: "char \<Rightarrow> bool" where
  "note_end c = (var_char c \<or> c = CHR ''*'' \<or> c = CHR '']'')"

text \<open>The two suffixes that \<^verbatim>\<open>removeTrailingWildcards\<close> strips, one at a time.\<close>

definition wild_suffix :: "string \<Rightarrow> bool" where
  "wild_suffix g = (g = ''.*'' \<or> g = ''[*]'')"

text \<open>The shapes of a note of the tokenizer.\<close>

definition note_ok :: "string \<Rightarrow> bool" where
  "note_ok t = (t = ''*'' \<or> t = ''[*]'' \<or> VAR t \<or> ARRAY_NOTE t \<noteq> None
                \<or> quoted_by sq t \<noteq> None \<or> quoted_by dq t \<noteq> None)"

section \<open>Valid globs and their notes\<close>

text \<open>
  A valid glob survives \<^verbatim>\<open>trim\<close>, and what \<^verbatim>\<open>removeTrailingWildcards\<close> or the removal
  of the bang leaves of it is valid again, so the constructor never throws on it.
\<close>

lemma char_facts:
  "\<not> is_digit (CHR ''.'')" "\<not> is_digit (CHR ''['')" "\<not> is_digit (CHR ''*'')"
  "\<not> var_start (CHR ''.'')" "\<not> var_start (CHR ''['')" "\<not> var_start (CHR ''*'')"
  "\<not> var_char (CHR ''.'')" "\<not> var_char (CHR ''['')" "\<not> var_char (CHR ''*'')"
  "\<not> var_start (CHR ''!'')" "\<not> var_char (CHR ''!'')"
  "dq \<noteq> CHR ''.''" "dq \<noteq> CHR ''[''" "dq \<noteq> CHR ''*''" "dq \<noteq> CHR '']''"
  "sq \<noteq> CHR ''.''" "sq \<noteq> CHR ''[''" "sq \<noteq> CHR ''*''" "sq \<noteq> CHR '']''"
  "CHR ''.'' \<noteq> dq" "CHR ''['' \<noteq> dq" "CHR ''*'' \<noteq> dq" "CHR '']'' \<noteq> dq"
  "CHR ''.'' \<noteq> sq" "CHR ''['' \<noteq> sq" "CHR ''*'' \<noteq> sq" "CHR '']'' \<noteq> sq"
  "\<not> line_terminator (CHR ''.'')" "\<not> line_terminator (CHR ''['')"
  "\<not> line_terminator (CHR ''*'')" "\<not> line_terminator (CHR '']'')"
  by (simp_all add: is_digit_def var_start_def var_char_def dq_def sq_def line_terminator_def)

lemma suffix_base:
  assumes "wild_suffix g"
  shows "tails g" "ident g" "\<not> digits g" "q = dq \<or> q = sq \<Longrightarrow> \<not> quoted q g"
    "\<not> tails (c # g)" "hd g \<noteq> CHR '']''" "g \<noteq> []"
    "q = dq \<or> q = sq \<Longrightarrow> \<not> quoted q (c # g)"
  using assms by (auto simp: wild_suffix_def char_facts split: if_splits)

lemma strip_suffix:
  assumes g: "wild_suffix g"
  shows "(tails (x @ g) \<longrightarrow> tails x) \<and> (ident (x @ g) \<longrightarrow> ident x)
       \<and> (digits (x @ g) \<longrightarrow> digits x)
       \<and> (quoted dq (x @ g) \<longrightarrow> quoted dq x) \<and> (quoted sq (x @ g) \<longrightarrow> quoted sq x)"
proof (induction x rule: length_induct)
  case (1 x)
  note IH = 1
  show ?case
  proof (cases x)
    case Nil
    with suffix_base [OF g] show ?thesis by simp
  next
    case (Cons c y)
    note x = Cons
    have IHy: "(tails (y @ g) \<longrightarrow> tails y) \<and> (ident (y @ g) \<longrightarrow> ident y)
       \<and> (digits (y @ g) \<longrightarrow> digits y)
       \<and> (quoted dq (y @ g) \<longrightarrow> quoted dq y) \<and> (quoted sq (y @ g) \<longrightarrow> quoted sq y)"
      using IH x by simp
    have t: "tails (x @ g) \<longrightarrow> tails x"
    proof (cases y)
      case Nil
      with x suffix_base(5) [OF g, of c] show ?thesis by simp
    next
      case (Cons d r)
      note y = Cons
      have IHr: "(tails (r @ g) \<longrightarrow> tails r) \<and> (ident (r @ g) \<longrightarrow> ident r)
       \<and> (digits (r @ g) \<longrightarrow> digits r)
       \<and> (quoted dq (r @ g) \<longrightarrow> quoted dq r) \<and> (quoted sq (r @ g) \<longrightarrow> quoted sq r)"
        using IH x y by simp
      have star: "(case r @ g of [] \<Rightarrow> False | e # r' \<Rightarrow> e = CHR '']'' \<and> tails r')
                  \<longrightarrow> (case r of [] \<Rightarrow> False | e # r' \<Rightarrow> e = CHR '']'' \<and> tails r')"
      proof (cases r)
        case Nil
        with suffix_base(6,7) [OF g] show ?thesis by (cases g) auto
      next
        case (Cons e r')
        with IH x y have "tails (r' @ g) \<longrightarrow> tails r'" by simp
        with Cons show ?thesis by simp
      qed
      from IHr star x y show ?thesis by (auto split: if_splits)
    qed
    have i: "ident (x @ g) \<longrightarrow> ident x" using t IHy x by auto
    have d: "digits (x @ g) \<longrightarrow> digits x" using IHy x by auto
    have q: "(quoted dq (x @ g) \<longrightarrow> quoted dq x) \<and> (quoted sq (x @ g) \<longrightarrow> quoted sq x)"
    proof (cases y)
      case Nil
      with x suffix_base(8) [OF g, of dq c] suffix_base(8) [OF g, of sq c] show ?thesis by simp
    next
      case (Cons d r)
      with IH x have "tails (r @ g) \<longrightarrow> tails r" by simp
      with IHy x Cons show ?thesis by auto
    qed
    from t i d q show ?thesis by simp
  qed
qed

lemma tails_last: "tails s \<Longrightarrow> s = [] \<or> note_end (last s)"
  and ident_last: "ident s \<Longrightarrow> s = [] \<or> note_end (last s)"
  and digits_last: "digits s \<Longrightarrow> s \<noteq> [] \<and> note_end (last s)"
  and quoted_last: "quoted q s \<Longrightarrow> s \<noteq> [] \<and> note_end (last s)"
proof (induction s and s and s and q s rule: tails_ident_digits_quoted.induct)
  case (3 c d r)
  then show ?case
    by (cases r) (auto simp: note_end_def var_char_def split: if_splits)
next
  case (10 q c d r)
  then show ?case by (auto simp: note_end_def)
qed (auto simp: note_end_def)

lemma heads_strip:
  assumes g: "wild_suffix g" and h: "heads (p @ g)" and p: "p \<noteq> []"
  shows "heads p"
proof -
  from p obtain c r where pc: "p = c # r" by (cases p) auto
  from strip_suffix [OF g, of r] have r: "tails (r @ g) \<Longrightarrow> tails r" "ident (r @ g) \<Longrightarrow> ident r"
    by simp_all
  from strip_suffix [OF g, of "c # r"] have cr: "tails (c # r @ g) \<Longrightarrow> tails (c # r)" by simp
  from h pc r cr show ?thesis by (auto simp: heads_def split: if_splits)
qed

lemma wild_trail_strip:
  "wild_trail t \<Longrightarrow> heads (p @ t) \<Longrightarrow> p \<noteq> [] \<Longrightarrow> heads p"
proof (induction t arbitrary: p rule: wild_trail.induct)
  case (1 a b r)
  show ?case
  proof (cases "a = CHR ''.'' \<and> b = CHR ''*''")
    case True
    then have g: "wild_suffix [a, b]" by (simp add: wild_suffix_def)
    show ?thesis
    proof (cases "r = []")
      case True
      with 1(4) heads_strip [OF g _ 1(5)] show ?thesis by simp
    next
      case False
      with 1(3) True have "wild_trail r" by simp
      from 1(1) [OF True this, of "p @ [a, b]"] 1(4) have "heads (p @ [a, b])" by simp
      from heads_strip [OF g this 1(5)] show ?thesis .
    qed
  next
    case False
    note nd = False
    with 1(3) obtain r' where r: "a = CHR ''[''" "b = CHR ''*''" "r = CHR '']'' # r'"
      and w: "r' = [] \<or> wild_trail r'"
      by (cases r) (auto split: if_splits)
    have g: "wild_suffix [a, b, CHR '']'']" using r by (simp add: wild_suffix_def)
    show ?thesis
    proof (cases "r' = []")
      case True
      with 1(4) r heads_strip [OF g _ 1(5)] show ?thesis by simp
    next
      case False
      with w have wt: "wild_trail r'" by simp
      have ab: "a = CHR ''['' \<and> b = CHR ''*''" using r by simp
      from 1(2) [OF nd ab r(3) wt, of "p @ [a, b, CHR '']'']"] 1(4) r
      have "heads (p @ [a, b, CHR '']''])" by simp
      from heads_strip [OF g this 1(5)] show ?thesis .
    qed
  qed
qed simp_all

lemma lazy_prefix_split:
  "lazy_prefix s = Some p \<Longrightarrow> \<exists>t. s = p @ t \<and> wild_trail t \<and> p \<noteq> []"
proof (induction s arbitrary: p)
  case Nil
  then show ?case by simp
next
  case (Cons c r)
  show ?case
  proof (cases "wild_trail r")
    case True
    with Cons.prems show ?thesis by (auto split: if_splits)
  next
    case False
    with Cons.prems obtain p' where p': "lazy_prefix r = Some p'" "p = c # p'"
      by (auto split: if_splits)
    from Cons.IH [OF p'(1)] p'(2) show ?thesis by auto
  qed
qed

lemma heads_not_bang: "heads s \<Longrightarrow> s \<noteq> [] \<and> take 1 s \<noteq> ''!''"
  by (cases s) (auto simp: heads_def char_facts split: if_splits)

lemma isValid_heads: "isValid g \<Longrightarrow> take 1 g \<noteq> ''!'' \<Longrightarrow> heads g"
  by (cases g) (auto simp: isValid_def reVALIDATOR_def)

lemma heads_isValid: "heads g \<Longrightarrow> isValid g"
  by (cases g) (auto simp: isValid_def reVALIDATOR_def heads_def)

lemma isValid_bang: "isValid g \<Longrightarrow> take 1 g = ''!'' \<Longrightarrow> heads (drop 1 g)"
  by (cases g) (auto simp: isValid_def reVALIDATOR_def heads_def char_facts)

lemma removeTrailingWildcards_heads:
  assumes "heads g"
  shows "heads (removeTrailingWildcards g)"
proof (cases "lazy_prefix g")
  case None
  with assms heads_not_bang [OF assms] show ?thesis by (simp add: removeTrailingWildcards_def)
next
  case (Some p)
  from lazy_prefix_split [OF Some] obtain t where t: "g = p @ t" "wild_trail t" "p \<noteq> []" by auto
  from wild_trail_strip [OF t(2) _ t(3)] assms t(1) have "heads p" by simp
  with Some heads_not_bang [OF assms] show ?thesis by (simp add: removeTrailingWildcards_def)
qed

lemma var_start_not_space: "var_start c \<Longrightarrow> \<not> white_space c"
  by (auto simp: var_start_def white_space_def)

lemma note_end_not_space: "note_end c \<Longrightarrow> \<not> white_space c"
  by (auto simp: note_end_def var_char_def var_start_def is_digit_def white_space_def)

lemma heads_last: "heads s \<Longrightarrow> note_end (last s)"
proof (cases s)
  case Nil
  assume "heads s" with Nil show ?thesis by (simp add: heads_def)
next
  case (Cons c r)
  assume h: "heads s"
  from h Cons tails_last [of r] ident_last [of r] tails_last [of s]
  show ?thesis
    by (auto simp: heads_def note_end_def var_char_def split: if_splits)
qed

lemma heads_first: "heads s \<Longrightarrow> \<not> white_space (hd s)"
  by (cases s) (auto simp: heads_def white_space_def dest: var_start_not_space split: if_splits)

lemma trim_id:
  assumes "s \<noteq> []" "\<not> white_space (hd s)" "\<not> white_space (last s)"
  shows "trim s = s"
proof -
  from assms have 1: "dropWhile white_space s = s" by (cases s) auto
  from assms have "dropWhile white_space (rev s) = rev s"
    by (cases "rev s") (auto simp: hd_rev [symmetric] simp del: hd_rev)
  with 1 show ?thesis by (simp add: trim_def)
qed

lemma isValid_trim: "isValid g \<Longrightarrow> trim g = g"
proof -
  assume v: "isValid g"
  show ?thesis
  proof (cases "take 1 g = ''!''")
    case True
    from isValid_bang [OF v True] have h: "heads (drop 1 g)" .
    from True obtain r where g: "g = CHR ''!'' # r" by (cases g) auto
    with h have r: "r \<noteq> []" "note_end (last r)" using heads_not_bang heads_last by auto
    have "\<not> white_space (CHR ''!'')" by (simp add: white_space_def)
    with g r note_end_not_space show ?thesis by (intro trim_id) auto
  next
    case False
    from isValid_heads [OF v False] have h: "heads g" .
    from heads_not_bang [OF h] heads_first [OF h] heads_last [OF h] note_end_not_space
    show ?thesis by (intro trim_id) auto
  qed
qed

lemma Glob_split_heads: "heads a \<Longrightarrow> Glob_split a False = Inr (reMATCHER a)"
  using heads_not_bang [of a] heads_isValid [of a] by (simp add: Glob_split_def)

lemma Glob_inspect_valid:
  assumes v: "isValid g"
  shows "Glob_inspect g =
     Inr \<lparr> glob = (if take 1 g = ''!'' then g else removeTrailingWildcards g),
           absGlob = (if take 1 g = ''!'' then drop 1 g else removeTrailingWildcards g),
           isNegated = (take 1 g = ''!''),
           isArrayGlob = (case (if take 1 g = ''!'' then drop 1 g else removeTrailingWildcards g) of
                            c # d # _ \<Rightarrow> c = CHR ''['' \<and> d \<noteq> sq \<and> d \<noteq> dq
                          | _ \<Rightarrow> False) \<rparr>"
  using v isValid_trim [OF v] by (simp add: Glob_inspect_def Let_def)

lemma absGlob_heads:
  assumes v: "isValid g"
  shows "heads (if take 1 g = ''!'' then drop 1 g else removeTrailingWildcards g)"
  using isValid_bang [OF v] isValid_heads [OF v] removeTrailingWildcards_heads by auto

lemma Glob_new_valid:
  assumes v: "isValid g"
  shows "Glob_new g =
     Inr \<lparr> glob = (if take 1 g = ''!'' then g else removeTrailingWildcards g),
           absGlob = (if take 1 g = ''!'' then drop 1 g else removeTrailingWildcards g),
           isNegated = (take 1 g = ''!''),
           isArrayGlob = (case (if take 1 g = ''!'' then drop 1 g else removeTrailingWildcards g) of
                            c # d # _ \<Rightarrow> c = CHR ''['' \<and> d \<noteq> sq \<and> d \<noteq> dq
                          | _ \<Rightarrow> False),
           levels = reMATCHER (if take 1 g = ''!'' then drop 1 g else removeTrailingWildcards g) \<rparr>"
  unfolding Glob_new_def Glob_inspect_valid [OF v] bindE_def
  using Glob_split_heads [OF absGlob_heads [OF v]] by simp

text \<open>
  Every note the tokenizer gives has one of the shapes \<^verbatim>\<open>normalizeNote\<close> accepts or is a
  wildcard.
\<close>

lemma quoted_close_inner:
  "quoted_close q s = Some (inner, rest) \<Longrightarrow>
     s = inner @ [q, CHR '']''] @ rest \<and> list_all (\<lambda>c. \<not> line_terminator c) inner"
proof (induction s arbitrary: inner)
  case Nil
  then show ?case by simp
next
  case (Cons c r)
  show ?case
  proof (cases "if line_terminator c then None else quoted_close q r")
    case None
    with Cons.prems show ?thesis
      by (cases r) (auto split: if_splits)
  next
    case (Some p)
    obtain i' r' where p: "p = (i', r')" by (cases p)
    with Some have q: "quoted_close q r = Some (i', r')" and nl: "\<not> line_terminator c"
      by (auto split: if_splits)
    from Cons.prems Some p have e: "r' = rest" "inner = c # i'" by simp_all
    with Cons.IH [of i'] q nl show ?thesis by simp
  qed
qed

lemma quoted_by_bracket:
  assumes "list_all (\<lambda>c. \<not> line_terminator c) inner"
  shows "quoted_by q (CHR ''['' # q # inner @ [q, CHR '']'']) = Some inner"
  using assms by (simp add: quoted_by_def)

lemma match_note_ok:
  assumes m: "match_note s = Some (t, rest)"
  shows "note_ok t"
proof (cases s)
  case Nil
  with m show ?thesis by (simp add: match_note_def)
next
  case (Cons c r)
  note s = Cons
  show ?thesis
  proof (cases "c = CHR ''[''")
    case False
    with m s have "t = ''*'' \<or> (var_start c \<and> t = c # takeWhile var_char r)"
      by (auto simp: match_note_def split: if_splits)
    then show ?thesis
      by (auto simp: note_ok_def VAR_def list_all_iff dest: set_takeWhileD)
  next
    case True
    note c = True
    show ?thesis
    proof (cases r)
      case Nil
      with m s c show ?thesis by (simp add: match_note_def)
    next
      case (Cons d r')
      note r = Cons
      show ?thesis
      proof (cases "is_digit d")
        case True
        with m s c r have "t = CHR ''['' # (d # takeWhile is_digit r') @ [CHR '']'']"
          by (simp add: match_note_def split: list.splits if_splits)
        with True have "ARRAY_NOTE t = Some (d # takeWhile is_digit r')"
          by (auto simp: ARRAY_NOTE_def list_all_iff dest: set_takeWhileD)
        then show ?thesis by (simp add: note_ok_def)
      next
        case False
        note nd = False
        show ?thesis
        proof (cases "d = CHR ''*''")
          case True
          with m s c r nd have "t = ''[*]''"
            by (cases r') (simp_all add: match_note_def split: if_splits)
          then show ?thesis by (simp add: note_ok_def)
        next
          case False
          show ?thesis
          proof (cases "quoted_close d r'")
            case None
            with m s c r nd False show ?thesis
              by (simp add: match_note_def split: if_splits)
          next
            case (Some p)
            obtain i' rs where p: "p = (i', rs)" by (cases p)
            from m s c r nd False Some p
            have t: "t = CHR ''['' # d # i' @ [d, CHR '']'']" and d: "d = dq \<or> d = sq"
              by (simp_all add: match_note_def split: if_splits)
            from quoted_close_inner [of d r' i' rs] Some p
            have "list_all (\<lambda>c. \<not> line_terminator c) i'" by simp
            from quoted_by_bracket [OF this, of d] t have "quoted_by d t = Some i'" by simp
            with d show ?thesis by (auto simp: note_ok_def)
          qed
        qed
      qed
    qed
  qed
qed

lemma reMATCHER_ok: "list_all note_ok (reMATCHER s)"
proof (induction s rule: reMATCHER.induct)
  case 1
  then show ?case by simp
next
  case (2 c r)
  show ?case
  proof (cases "match_note (c # r)")
    case None
    with 2 show ?thesis by simp
  next
    case (Some p)
    obtain t rest where p: "p = (t, rest)" by (cases p)
    from Some p match_note_ok have "note_ok t" by simp
    with 2(2) [OF Some p [symmetric]] Some p show ?thesis by simp
  qed
qed

lemma quoted_by_shape: "quoted_by q t = Some m \<Longrightarrow> take 2 t = [CHR ''['', q] \<and> 4 \<le> length t"
  by (simp add: quoted_by_def split: if_splits)

lemma ARRAY_NOTE_shape:
  "ARRAY_NOTE t = Some ds \<Longrightarrow> take 1 t = ''['' \<and> ds \<noteq> [] \<and> list_all is_digit ds"
  by (cases t) (auto simp: ARRAY_NOTE_def split: if_splits)

lemma VAR_shape: "VAR t \<Longrightarrow> t \<noteq> [] \<and> var_start (hd t)"
  by (cases t) (auto simp: VAR_def)

lemma note_ok_first: "note_ok t \<Longrightarrow> t \<noteq> [] \<and> take 1 t \<noteq> ''!''"
proof -
  assume "note_ok t"
  then consider "t = ''*''" | "t = ''[*]''" | "VAR t" | ds where "ARRAY_NOTE t = Some ds"
    | m where "quoted_by sq t = Some m" | m where "quoted_by dq t = Some m"
    by (auto simp: note_ok_def)
  then show ?thesis
  proof cases
    case 3
    from VAR_shape [OF 3] show ?thesis
      by (cases t) (auto simp: var_start_def)
  next
    case 4
    from ARRAY_NOTE_shape [OF 4] show ?thesis by (cases t) auto
  next
    case 5
    from quoted_by_shape [OF 5] show ?thesis by (cases t) auto
  next
    case 6
    from quoted_by_shape [OF 6] show ?thesis by (cases t) auto
  qed simp_all
qed

lemma parseInt_digits:
  assumes "ds \<noteq> []" "list_all is_digit ds"
  shows "parseInt ds = Some (int (decimal ds))"
proof -
  from assms obtain d r where ds: "ds = d # r" "is_digit d" by (cases ds) auto
  then have "\<not> white_space d" "d \<noteq> CHR ''-''" "d \<noteq> CHR ''+''"
    by (auto simp: is_digit_def white_space_def)
  with ds have 1: "dropWhile white_space ds = ds" "take 1 ds \<noteq> ''-''" "take 1 ds \<noteq> ''+''"
    by simp_all
  from assms have 2: "takeWhile is_digit ds = ds" by (simp add: list_all_iff)
  from 1 assms(1) show ?thesis by (simp add: parseInt_def Let_def 2)
qed

lemma normalizeNote_ok:
  assumes "note_ok t" "\<not> WILDCARD t"
  shows "\<exists>v. normalizeNote t = Inr v \<and> v \<noteq> NNaN"
proof (cases "VAR t")
  case True
  then show ?thesis by (simp add: normalizeNote_def)
next
  case False
  note nv = False
  show ?thesis
  proof (cases "ARRAY_NOTE t")
    case (Some ds)
    from ARRAY_NOTE_shape [OF Some] parseInt_digits [of ds] nv Some show ?thesis
      by (simp add: normalizeNote_def)
  next
    case None
    with assms nv have "quoted_by sq t \<noteq> None \<or> quoted_by dq t \<noteq> None"
      by (auto simp: note_ok_def WILDCARD_def)
    with nv None show ?thesis
      by (auto simp: normalizeNote_def OBJECT_BRACKETS_def split: option.splits)
  qed
qed

lemma coversNote_refl:
  assumes "note_ok t"
  shows "coversNote (Some t) (Some t) = Inr True"
proof (cases "WILDCARD t")
  case True
  then show ?thesis
    by (auto simp: WILDCARD_def coversNote_def ARRAY_GLOB_NOTE_def ARRAY_NOTE_def)
next
  case False
  from normalizeNote_ok [OF assms False] obtain v where "normalizeNote t = Inr v" "v \<noteq> NNaN"
    by auto
  with False note_ok_first [OF assms] show ?thesis
    by (auto simp: coversNote_def WILDCARD_def bindE_def strict_equal_def)
qed

lemma covers_loop_refl:
  "list_all note_ok ns \<Longrightarrow> covers_loop coversNote ns ns = Inr True"
  by (induction ns) (simp_all add: coversNote_refl bindE_def)

subsection \<open>Coverage of notes is transitive\<close>

lemma ARRAY_NOTE_not_VAR: "ARRAY_NOTE t = Some ds \<Longrightarrow> \<not> VAR t"
  by (cases t) (auto simp: ARRAY_NOTE_def VAR_def var_start_def split: if_splits)

lemma normalizeNote_num:
  "normalizeNote t = Inr (NNum n) \<Longrightarrow> ARRAY_NOTE t \<noteq> None"
  by (auto simp: normalizeNote_def split: if_splits option.splits)

lemma normalizeNote_array:
  "ARRAY_NOTE t = Some ds \<Longrightarrow> normalizeNote t = Inr x \<Longrightarrow> x = NNaN \<or> (\<exists>n. x = NNum n)"
  by (auto simp: normalizeNote_def ARRAY_NOTE_not_VAR split: option.splits)

text \<open>what a true result of coversNote says\<close>
lemma coversNote_True:
  assumes "coversNote a b = Inr True"
  obtains a' b' where "a = Some a'" "b = Some b'" "a' \<noteq> []" "b' \<noteq> []"
    and "(a' = ''*'' \<and> \<not> ARRAY_GLOB_NOTE b')
       \<or> (a' = ''[*]'' \<and> ARRAY_GLOB_NOTE b')
       \<or> (\<not> WILDCARD a' \<and> \<not> WILDCARD b'
           \<and> (\<exists>x. normalizeNote a' = Inr x \<and> normalizeNote b' = Inr x \<and> x \<noteq> NNaN))"
proof -
  from assms obtain a' b' where ab: "a = Some a'" "b = Some b'"
    by (cases a; cases b) (auto simp: coversNote_def)
  with assms have ne: "a' \<noteq> []" "b' \<noteq> []"
    by (auto simp: coversNote_def split: if_splits)
  from assms ab ne have "(a' = ''*'' \<and> \<not> ARRAY_GLOB_NOTE b')
       \<or> (a' = ''[*]'' \<and> ARRAY_GLOB_NOTE b')
       \<or> (\<not> WILDCARD a' \<and> \<not> WILDCARD b'
           \<and> (\<exists>x. normalizeNote a' = Inr x \<and> normalizeNote b' = Inr x \<and> x \<noteq> NNaN))"
    by (auto simp: coversNote_def WILDCARD_def bindE_def strict_equal_def
             split: if_splits sum.splits)
  with ab ne that show ?thesis by blast
qed

lemma coversNote_trans:
  assumes ab: "coversNote a b = Inr True" and bc: "coversNote b c = Inr True"
  shows "coversNote a c = Inr True"
proof -
  from ab obtain a' b' where a: "a = Some a'" "b = Some b'" "a' \<noteq> []" "b' \<noteq> []"
    and A: "(a' = ''*'' \<and> \<not> ARRAY_GLOB_NOTE b')
       \<or> (a' = ''[*]'' \<and> ARRAY_GLOB_NOTE b')
       \<or> (\<not> WILDCARD a' \<and> \<not> WILDCARD b'
           \<and> (\<exists>x. normalizeNote a' = Inr x \<and> normalizeNote b' = Inr x \<and> x \<noteq> NNaN))"
    by (rule coversNote_True)
  from bc a obtain c' where c: "c = Some c'" "c' \<noteq> []"
    and B: "(b' = ''*'' \<and> \<not> ARRAY_GLOB_NOTE c')
       \<or> (b' = ''[*]'' \<and> ARRAY_GLOB_NOTE c')
       \<or> (\<not> WILDCARD b' \<and> \<not> WILDCARD c'
           \<and> (\<exists>x. normalizeNote b' = Inr x \<and> normalizeNote c' = Inr x \<and> x \<noteq> NNaN))"
    by (auto elim!: coversNote_True)
  have star: "ARRAY_GLOB_NOTE ''[*]''" "\<not> ARRAY_GLOB_NOTE ''*''"
    by (simp_all add: ARRAY_GLOB_NOTE_def ARRAY_NOTE_def)
  text \<open>two notes with the same normal form are both array notes or neither is\<close>
  have same: "ARRAY_GLOB_NOTE c' = ARRAY_GLOB_NOTE b'"
    if "\<not> WILDCARD b'" "\<not> WILDCARD c'" "normalizeNote b' = Inr x" "normalizeNote c' = Inr x"
       "x \<noteq> NNaN" for x
  proof -
    have "ARRAY_NOTE c' \<noteq> None \<longleftrightarrow> ARRAY_NOTE b' \<noteq> None"
      using that normalizeNote_array [of b' _ x] normalizeNote_array [of c' _ x]
        normalizeNote_num [of b'] normalizeNote_num [of c']
      by (metis option.exhaust)
    with that show ?thesis by (simp add: ARRAY_GLOB_NOTE_def WILDCARD_def)
  qed
  from A B have "(a' = ''*'' \<and> \<not> ARRAY_GLOB_NOTE c')
       \<or> (a' = ''[*]'' \<and> ARRAY_GLOB_NOTE c')
       \<or> (\<not> WILDCARD a' \<and> \<not> WILDCARD c'
           \<and> (\<exists>x. normalizeNote a' = Inr x \<and> normalizeNote c' = Inr x \<and> x \<noteq> NNaN))"
    using star same by (auto simp: WILDCARD_def)
  with a c show ?thesis
    by (auto simp: coversNote_def WILDCARD_def bindE_def strict_equal_def)
qed

lemma covers_loop_length:
  "covers_loop coversNote na nb = Inr True \<Longrightarrow> length na \<le> length nb"
proof (induction na arbitrary: nb)
  case Nil
  then show ?case by simp
next
  case (Cons a na)
  from Cons.prems obtain b nb' where nb: "nb = b # nb'"
    by (cases nb) (auto simp: coversNote_def bindE_def)
  with Cons.prems have "covers_loop coversNote na nb' = Inr True"
    by (auto simp: bindE_def split: sum.splits if_splits)
  from Cons.IH [OF this] nb show ?case by simp
qed

lemma covers_loop_trans:
  "covers_loop coversNote na nb = Inr True \<Longrightarrow> covers_loop coversNote nb nc = Inr True
     \<Longrightarrow> covers_loop coversNote na nc = Inr True"
proof (induction na arbitrary: nb nc)
  case Nil
  then show ?case by simp
next
  case (Cons a na)
  from Cons.prems(1) obtain b nb' where nb: "nb = b # nb'"
    by (cases nb) (auto simp: coversNote_def bindE_def)
  with Cons.prems(1) have ab: "coversNote (Some a) (Some b) = Inr True"
    and r1: "covers_loop coversNote na nb' = Inr True"
    by (auto simp: bindE_def split: sum.splits if_splits)
  from Cons.prems(2) nb obtain c nc' where nc: "nc = c # nc'"
    by (cases nc) (auto simp: coversNote_def bindE_def)
  with Cons.prems(2) nb have bc: "coversNote (Some b) (Some c) = Inr True"
    and r2: "covers_loop coversNote nb' nc' = Inr True"
    by (auto simp: bindE_def split: sum.splits if_splits)
  from coversNote_trans [OF ab bc] Cons.IH [OF r1 r2] nc show ?case
    by (simp add: bindE_def)
qed

subsection \<open>Coverage of valid globs\<close>

lemma covers_valid:
  assumes a: "isValid A" and b: "isValid B"
  shows "\<exists>ga gb. Glob_new A = Inr ga \<and> Glob_new B = Inr gb
     \<and> isNegated ga = (take 1 A = ''!'')
     \<and> list_all note_ok (levels ga) \<and> list_all note_ok (levels gb)
     \<and> covers A B =
         (if isNegated ga \<and> length (levels gb) < length (levels ga) then Inr False
          else covers_loop coversNote (levels ga) (levels gb))"
  by (simp add: covers_def Glob_covers_def resolve_arg_def arg_notes_def arg_isNegated_def
        Glob_new_valid [OF a] Glob_new_valid [OF b] bindE_def reMATCHER_ok)

subsection \<open>Stars and the parity of the quotes after them\<close>



subsection \<open>The first note of an intersection\<close>

lemma Glob_split_ok: "Glob_split g n = Inr ns \<Longrightarrow> list_all note_ok ns"
  by (auto simp: Glob_split_def Let_def reMATCHER_ok split: if_splits)

lemma intersect_loop_first:
  assumes "intersect_loop na nb = Some (x # xs)" "list_all note_ok na" "list_all note_ok nb"
  shows "note_ok x"
proof (cases na)
  case Nil
  with assms show ?thesis by (cases nb) (auto split: if_splits)
next
  case (Cons a na')
  with assms show ?thesis by (cases nb) (auto split: if_splits)
qed

lemma joinNotes_first: "x \<noteq> [] \<Longrightarrow> take 1 (joinNotes (x # xs)) = take 1 x"
  by (cases x) simp_all

lemma bang_of_cases:
  "bang_of A na B nb r = ''!'' \<or> bang_of A na B nb r = []"
  by (simp add: bang_of_def)

subsection \<open>The store of a call\<close>

lemma extends_append: "extends h h' = (\<exists>t. h' = h @ t)"
proof
  assume "extends h h'"
  then have "h' = h @ drop (length h) h'"
    by (simp add: extends_def) (metis append_take_drop_id)
  then show "\<exists>t. h' = h @ t" ..
next
  assume "\<exists>t. h' = h @ t"
  then show "extends h h'" by (auto simp: extends_def)
qed

lemma extends_refl: "extends h h"
  by (simp add: extends_def)

lemma extends_trans: "extends h h1 \<Longrightarrow> extends h1 h2 \<Longrightarrow> extends h h2"
  by (auto simp: extends_append)

lemma extends_alloc:
  "alloc h c = (q, h') \<Longrightarrow> extends h h' \<and> q = length h \<and> length h' = Suc (length h)"
  by (auto simp: alloc_def extends_append)

lemma extends_update: "extends h h1 \<Longrightarrow> length h \<le> q \<Longrightarrow> extends h (h1[q := c])"
  by (auto simp: extends_append list_update_append)

lemma extends_nth: "extends h h' \<Longrightarrow> q < length h \<Longrightarrow> h' ! q = h ! q"
  by (auto simp: extends_append nth_append)

lemma extends_snoc: "extends h h' \<Longrightarrow> extends h (h' @ t)"
proof -
  assume "extends h h'"
  then obtain t0 where "h' = h @ t0" by (auto simp: extends_append)
  then have "h' @ t = h @ (t0 @ t)" by simp
  then show ?thesis unfolding extends_append by blast
qed

lemma extends_length: "extends h h' \<Longrightarrow> length h \<le> length h'"
  by (simp add: extends_def)

lemma extends_strings_at:
  "extends h h' \<Longrightarrow> strings_at h p = Some L \<Longrightarrow> strings_at h' p = Some L"
  by (auto simp: extends_append strings_at_def nth_append split: if_splits)

lemma strings_at_new: "strings_at (h @ [Strings xs]) (length h) = Some xs"
  by (simp add: strings_at_def)

lemma strings_at_update: "q < length h \<Longrightarrow> strings_at (h[q := Strings xs]) q = Some xs"
  by (simp add: strings_at_def)

lemma finish_pass_spec:
  assumes e: "extends h h4" and lr: "length h \<le> lr" and nr: "length h \<le> nr" "nr < length h4"
  shows "extends h (snd (finish_pass h4 lr nr r st))
       \<and> agrees h (finish_pass h4 lr nr r st)
            (if r \<and> negateAll st then Inr (Done [])
             else if intersections st \<noteq> [] then Inr (Again (normalized st @ intersections st))
             else Inr (Sort (normalized st)))"
proof -
  let ?h5 = "h4[lr := Inspections (list st), nr := Strings (normalized st)]"
  have e5: "extends h ?h5" by (rule extends_update [OF extends_update [OF e lr] nr(1)])
  have l5: "length h \<le> length ?h5" "nr < length ?h5" using nr by simp_all
  show ?thesis
  proof (cases "r \<and> negateAll st")
    case True
    then have f: "finish_pass h4 lr nr r st = (Inr (Return (length ?h5)), ?h5 @ [Strings []])"
      by (simp add: finish_pass_def alloc_def)
    have "extends h (?h5 @ [Strings []])" by (rule extends_snoc [OF e5])
    with True l5 strings_at_new [of ?h5 "[]"] show ?thesis
      unfolding f by (simp add: agrees_def)
  next
    case False
    note nr' = False
    show ?thesis
    proof (cases "intersections st \<noteq> []")
      case True
      with nr' have f: "finish_pass h4 lr nr r st =
          (Inr (Recurse (length ?h5)), ?h5 @ [Strings (normalized st @ intersections st)])"
        by (auto simp: finish_pass_def alloc_def)
      have "extends h (?h5 @ [Strings (normalized st @ intersections st)])"
        by (rule extends_snoc [OF e5])
      with True nr' l5 strings_at_new [of ?h5 "normalized st @ intersections st"] show ?thesis
        unfolding f by (auto simp: agrees_def)
    next
      case False
      show ?thesis
      proof (cases "Glob_sort (normalized st)")
        case (Inl err)
        with False nr' have f: "finish_pass h4 lr nr r st = (Inl err, ?h5)"
          by (auto simp: finish_pass_def)
        with False nr' Inl e5 show ?thesis unfolding f by (auto simp: agrees_def)
      next
        case (Inr s)
        with False nr' have f: "finish_pass h4 lr nr r st = (Inr (Return nr), ?h5[nr := Strings s])"
          by (auto simp: finish_pass_def)
        have "extends h (?h5[nr := Strings s])" by (rule extends_update [OF e5 nr(1)])
        with False nr' Inr nr strings_at_update [OF l5(2), of s] show ?thesis
          unfolding f by (auto simp: agrees_def)
      qed
    qed
  qed
qed

lemma scan_pass_spec:
  assumes e: "extends h h2"
  shows "extends h (snd (scan_pass h2 original r l))
       \<and> agrees h (scan_pass h2 original r l)
            (if length l = 1 then
               (let g = hd l in if isNegated g then Inr (Done []) else Inr (Done [glob g]))
             else
               bindE (outer_loop original r (length l)
                        \<lparr> list = l, ignored = [], intersections = [], normalized = [],
                          negateAll = False \<rparr>) (\<lambda>st.
                 if r \<and> negateAll st then Inr (Done [])
                 else if intersections st \<noteq> [] then Inr (Again (normalized st @ intersections st))
                 else Inr (Sort (normalized st))))"
proof -
  let ?h3 = "h2 @ [Inspections l]"
  have e3: "extends h ?h3" by (rule extends_snoc [OF e])
  have len: "length h \<le> length h2" using e by (rule extends_length)
  show ?thesis
  proof (cases "length l = 1")
    case True
    let ?xs = "if isNegated (hd l) then [] else [glob (hd l)]"
    from True have f: "scan_pass h2 original r l = (Inr (Return (length ?h3)), ?h3 @ [Strings ?xs])"
      by (simp add: scan_pass_def alloc_def)
    have "extends h (?h3 @ [Strings ?xs])" by (rule extends_snoc [OF e3])
    with True len strings_at_new [of ?h3 ?xs] show ?thesis
      unfolding f by (cases "isNegated (hd l)") (simp_all add: agrees_def Let_def)
  next
    case False
    let ?h4 = "?h3 @ [Strings []]"
    let ?loop = "outer_loop original r (length l)
                   \<lparr> list = l, ignored = [], intersections = [], normalized = [],
                     negateAll = False \<rparr>"
    have e4: "extends h ?h4" by (rule extends_snoc [OF e3])
    show ?thesis
    proof (cases ?loop)
      case (Inl err)
      with False have f: "scan_pass h2 original r l = (Inl err, ?h4)"
        by (simp add: scan_pass_def alloc_def)
      with False Inl e4 show ?thesis unfolding f by (simp add: agrees_def bindE_def)
    next
      case (Inr st)
      with False have f: "scan_pass h2 original r l
          = finish_pass ?h4 (length h2) (Suc (length h2)) r st"
        by (simp add: scan_pass_def alloc_def)
      from finish_pass_spec [OF e4, of "length h2" "Suc (length h2)" r st] len False Inr
      show ?thesis unfolding f by (simp add: bindE_def)
    qed
  qed
qed

lemma normalize_heap_pass_spec:
  assumes L: "strings_at h p = Some L"
  shows "extends h (snd (normalize_heap_pass h p r))
       \<and> agrees h (normalize_heap_pass h p r) (normalize_pass L r)"
proof (cases "L = []")
  case True
  with L have f: "normalize_heap_pass h p r = (Inr (Return (length h)), h @ [Strings []])"
    by (simp add: normalize_heap_pass_def alloc_def)
  from True strings_at_new [of h "[]"] show ?thesis
    unfolding f by (simp add: agrees_def normalize_pass_def extends_append)
next
  case False
  let ?h1 = "h @ [Strings L]"
  let ?cmp = "if r then negFirstSort else negLastSort"
  show ?thesis
  proof (cases "sort_by ?cmp L")
    case (Inl err)
    with False L have f: "normalize_heap_pass h p r = (Inl err, ?h1)"
      by (simp add: normalize_heap_pass_def alloc_def)
    from False Inl show ?thesis
      unfolding f by (simp add: agrees_def normalize_pass_def bindE_def extends_append)
  next
    case (Inr ordered)
    let ?h2 = "?h1[length h := Strings ordered]"
    have e2: "extends h ?h2" by (simp add: extends_append)
    show ?thesis
    proof (cases "map_inspect ordered")
      case (Inl err)
      with False L Inr have f: "normalize_heap_pass h p r = (Inl err, ?h2)"
        by (simp add: normalize_heap_pass_def alloc_def)
      from False Inl Inr e2 show ?thesis
        unfolding f by (simp add: agrees_def normalize_pass_def bindE_def)
    next
      case (Inr l)
      with False L \<open>sort_by ?cmp L = Inr ordered\<close>
      have f: "normalize_heap_pass h p r = scan_pass ?h2 L r l"
        by (simp add: normalize_heap_pass_def alloc_def)
      have n: "normalize_pass L r =
            (if length l = 1 then
               (let g = hd l in if isNegated g then Inr (Done []) else Inr (Done [glob g]))
             else
               bindE (outer_loop L r (length l)
                        \<lparr> list = l, ignored = [], intersections = [], normalized = [],
                          negateAll = False \<rparr>) (\<lambda>st.
                 if r \<and> negateAll st then Inr (Done [])
                 else if intersections st \<noteq> [] then Inr (Again (normalized st @ intersections st))
                 else Inr (Sort (normalized st))))"
        using False Inr \<open>sort_by ?cmp L = Inr ordered\<close>
        by (simp add: normalize_pass_def bindE_def)
      from scan_pass_spec [OF e2, of L r l] show ?thesis unfolding f n .
    qed
  qed
qed

lemma normalize_heap_frame:
  assumes run: "normalize_heap h p r = Some y"
  shows "frame_ok h p r y"
proof (rule normalize_heap.raw_induct [where P = frame_ok, OF _ run])
  fix nh :: "heap \<Rightarrow> nat \<Rightarrow> bool \<Rightarrow> ((error + nat) \<times> heap) option"
  fix h p r y
  assume IH: "\<And>h p r y. nh h p r = Some y \<Longrightarrow> frame_ok h p r y"
    and eq: "(case normalize_heap_pass h p r of
                (Inl e, h') \<Rightarrow> Some (Inl e, h')
              | (Inr (Return q), h') \<Rightarrow> Some (Inr q, h')
              | (Inr (Recurse m), h') \<Rightarrow> nh h' m r) = Some y"
  show "frame_ok h p r y"
    unfolding frame_ok_def
  proof (intro allI impI)
    fix L
    assume L: "strings_at h p = Some L"
    obtain x h1 where pass: "normalize_heap_pass h p r = (x, h1)"
      by (cases "normalize_heap_pass h p r")
    from normalize_heap_pass_spec [OF L, of r] pass
    have e1: "extends h h1" and ag: "agrees h (x, h1) (normalize_pass L r)" by simp_all
    let ?goal = "extends h (snd y)
        \<and> (case fst y of
             Inl e \<Rightarrow> Glob_normalize L r = Some (Inl e)
           | Inr q \<Rightarrow> length h \<le> q
                      \<and> (\<exists>xs. strings_at (snd y) q = Some xs
                               \<and> Glob_normalize L r = Some (Inr xs)))"
    show ?goal
    proof (cases "normalize_pass L r")
      case (Inl err)
      with ag have "x = Inl err" by (simp add: agrees_def)
      with eq pass have "y = (Inl err, h1)" by simp
      with e1 Inl show ?thesis by (simp add: Glob_normalize.simps [of L r])
    next
      case (Inr pp)
      note np = Inr
      show ?thesis
      proof (cases pp)
        case (Done xs)
        with ag np obtain q where q: "x = Inr (Return q)" "length h \<le> q"
          "strings_at h1 q = Some xs"
          by (auto simp: agrees_def)
        with eq pass have "y = (Inr q, h1)" by simp
        with e1 q np Done show ?thesis by (simp add: Glob_normalize.simps [of L r])
      next
        case (Sort xs)
        show ?thesis
        proof (cases "Glob_sort xs")
          case (Inl err)
          with ag np Sort have "x = Inl err" by (simp add: agrees_def)
          with eq pass have "y = (Inl err, h1)" by simp
          with e1 np Sort Inl show ?thesis by (simp add: Glob_normalize.simps [of L r])
        next
          case (Inr s)
          with ag np Sort
          obtain q where q: "x = Inr (Return q)" "length h \<le> q" "strings_at h1 q = Some s"
            by (auto simp: agrees_def)
          with eq pass have "y = (Inr q, h1)" by simp
          with e1 q np Sort Inr show ?thesis
            by (simp add: Glob_normalize.simps [of L r])
        qed
      next
        case (Again xs)
        with ag np obtain m where m: "x = Inr (Recurse m)" "length h \<le> m"
          "strings_at h1 m = Some xs"
          by (auto simp: agrees_def)
        with eq pass have "nh h1 m r = Some y" by simp
        from IH [OF this] m(3)
        have e2: "extends h1 (snd y)"
          and res: "case fst y of
              Inl e \<Rightarrow> Glob_normalize xs r = Some (Inl e)
            | Inr q \<Rightarrow> length h1 \<le> q
                       \<and> (\<exists>ys. strings_at (snd y) q = Some ys
                                \<and> Glob_normalize xs r = Some (Inr ys))"
          by (simp_all add: frame_ok_def)
        have g: "Glob_normalize L r = Glob_normalize xs r"
          using np Again by (simp add: Glob_normalize.simps [of L r])
        from extends_trans [OF e1 e2] res extends_length [OF e1] show ?thesis
          unfolding g by (auto split: sum.splits)
      qed
    qed
  qed
qed

subsection \<open>Stars and wildcard notes\<close>










subsection \<open>Passes of a call on the store\<close>

lemma normalize_heap_run_frame:
  "strings_at h p = Some L \<Longrightarrow>
     extends h (snd (normalize_heap_run n h p r))
     \<and> (case fst (normalize_heap_run n h p r) of
          Inl e \<Rightarrow> Glob_normalize L r = Some (Inl e)
        | Inr (Return q) \<Rightarrow>
            length h \<le> q
            \<and> (\<exists>xs. strings_at (snd (normalize_heap_run n h p r)) q = Some xs
                     \<and> Glob_normalize L r = Some (Inr xs))
        | Inr (Recurse m) \<Rightarrow>
            (m = p \<or> length h \<le> m)
            \<and> (\<exists>xs. strings_at (snd (normalize_heap_run n h p r)) m = Some xs
                     \<and> Glob_normalize L r = Glob_normalize xs r))"
proof (induction n arbitrary: h p L)
  case 0
  then show ?case by (simp add: extends_refl)
next
  case (Suc n)
  obtain x h1 where pass: "normalize_heap_pass h p r = (x, h1)"
    by (cases "normalize_heap_pass h p r")
  from normalize_heap_pass_spec [OF Suc.prems, of r] pass
  have e1: "extends h h1" and ag: "agrees h (x, h1) (normalize_pass L r)" by simp_all
  show ?case
  proof (cases "normalize_pass L r")
    case (Inl err)
    with ag have "x = Inl err" by (simp add: agrees_def)
    with pass have "normalize_heap_run (Suc n) h p r = (Inl err, h1)" by simp
    with e1 Inl show ?thesis by (simp add: Glob_normalize.simps [of L r])
  next
    case (Inr pp)
    note np = Inr
    show ?thesis
    proof (cases pp)
      case (Done xs)
      with ag np obtain q where q: "x = Inr (Return q)" "length h \<le> q"
        "strings_at h1 q = Some xs"
        by (auto simp: agrees_def)
      with pass have "normalize_heap_run (Suc n) h p r = (Inr (Return q), h1)" by simp
      with e1 q np Done show ?thesis by (simp add: Glob_normalize.simps [of L r])
    next
      case (Sort xs)
      show ?thesis
      proof (cases "Glob_sort xs")
        case (Inl err)
        with ag np Sort have "x = Inl err" by (simp add: agrees_def)
        with pass have "normalize_heap_run (Suc n) h p r = (Inl err, h1)" by simp
        with e1 np Sort Inl show ?thesis by (simp add: Glob_normalize.simps [of L r])
      next
        case (Inr s)
        with ag np Sort
        obtain q where q: "x = Inr (Return q)" "length h \<le> q" "strings_at h1 q = Some s"
          by (auto simp: agrees_def)
        with pass have "normalize_heap_run (Suc n) h p r = (Inr (Return q), h1)" by simp
        with e1 q np Sort Inr show ?thesis by (simp add: Glob_normalize.simps [of L r])
      qed
    next
      case (Again xs)
      with ag np obtain m where m: "x = Inr (Recurse m)" "length h \<le> m"
        "strings_at h1 m = Some xs"
        by (auto simp: agrees_def)
      with pass have run: "normalize_heap_run (Suc n) h p r = normalize_heap_run n h1 m r"
        by simp
      have g: "Glob_normalize L r = Glob_normalize xs r"
        using np Again by (simp add: Glob_normalize.simps [of L r])
      from Suc.IH [OF m(3)] extends_trans [OF e1] extends_length [OF e1] m(2)
      show ?thesis unfolding run g
        by (auto split: sum.splits heap_pass.splits)
    qed
  qed
qed

lemma normalize_heap_run_ends:
  "fst (normalize_heap_run n h p r) = Inl e \<Longrightarrow>
     normalize_heap h p r = Some (Inl e, snd (normalize_heap_run n h p r))"
  "fst (normalize_heap_run n h p r) = Inr (Return q) \<Longrightarrow>
     normalize_heap h p r = Some (Inr q, snd (normalize_heap_run n h p r))"
proof (induction n arbitrary: h p)
  case 0
  { case 1 then show ?case by simp }
  { case 2 then show ?case by simp }
next
  case (Suc n)
  { case 1
    then show ?case
      using Suc.IH(1)
      by (subst normalize_heap.simps)
         (auto split: prod.splits sum.splits heap_pass.splits) }
  { case 2
    then show ?case
      using Suc.IH(2)
      by (subst normalize_heap.simps)
         (auto split: prod.splits sum.splits heap_pass.splits) }
qed

lemma normalize_cycle:
  "normalize_pass [''x'', ''*.y'', ''!*.y.z''] False
      = Inr (Again [''!*.y.z'', ''*.y'', ''x'', ''!x.y.z''])"
  by code_simp

lemma normalize_cycle2:
  "normalize_pass [''!*.y.z'', ''*.y'', ''x'', ''!x.y.z''] False
      = Inr (Again [''!*.y.z'', ''x'', ''*.y'', ''!x.y.z''])"
  "normalize_pass [''!*.y.z'', ''x'', ''*.y'', ''!x.y.z''] False
      = Inr (Again [''!*.y.z'', ''*.y'', ''x'', ''!x.y.z''])"
  by code_simp+

lemma cycling_never_returns:
  assumes "Glob_normalize L r = Some y"
  shows "\<not> cycling L r"
proof (rule Glob_normalize.raw_induct [where P = "\<lambda>L r y. \<not> cycling L r", OF _ assms])
  fix nz :: "string list \<Rightarrow> bool \<Rightarrow> (error + string list) option"
  fix L r y
  assume IH: "\<And>L r y. nz L r = Some y \<Longrightarrow> \<not> cycling L r"
    and eq: "(case normalize_pass L r of
                Inl e \<Rightarrow> Some (Inl e)
              | Inr (Done xs) \<Rightarrow> Some (Inr xs)
              | Inr (Again l) \<Rightarrow> nz l r
              | Inr (Sort xs) \<Rightarrow> Some (Glob_sort xs)) = Some y"
  show "\<not> cycling L r"
  proof
    assume c: "cycling L r"
    then obtain L' where "normalize_pass L r = Inr (Again L')" "cycling L' r"
      using normalize_cycle normalize_cycle2 by (auto simp: cycling_def)
    with eq have "nz L' r = Some y" by simp
    from IH [OF this] \<open>cycling L' r\<close> show False by simp
  qed
qed

lemma normalize_never_returns:
  "Glob_normalize [''x'', ''*.y'', ''!*.y.z''] False = None"
proof (cases "Glob_normalize [''x'', ''*.y'', ''!*.y.z''] False")
  case (Some y)
  from cycling_never_returns [OF this] show ?thesis by (simp add: cycling_def)
qed simp

subsection \<open>The scan of a list with two kinds of root\<close>


























section \<open>The claims\<close>

text \<open>
  Claim C1, as the code has it. \<^verbatim>\<open>intersect(A, B, restrictive)\<close>, when it gives a glob: in
  restrictive mode the result is negated iff at least one of A, B is negated; in loose
  mode it is negated iff both are negated, or the side with strictly more notes (after
  the trailing wildcards of a non-negated side are dropped) is negated. In particular
  \<^verbatim>\<open>intersect('x.*', '!*.y', false)\<close> and \<^verbatim>\<open>intersect('x.*', '!*.y', true)\<close> are both
  \<^verbatim>\<open>'!x.y'\<close>.
\<close>

theorem intersect_negation:
  "(Glob_intersect A B r = Inr (Some s) \<longrightarrow>
      (\<exists>na nb. Glob_split A True = Inr na \<and> Glob_split B True = Inr nb \<and>
         (take 1 s = ''!'') =
           (if r then take 1 A = ''!'' \<or> take 1 B = ''!''
            else (take 1 A = ''!'' \<and> take 1 B = ''!'')
                 \<or> (length nb < length na \<and> take 1 A = ''!'')
                 \<or> (length na < length nb \<and> take 1 B = ''!''))))
   \<and> Glob_intersect ''x.*'' ''!*.y'' False = Inr (Some ''!x.y'')
   \<and> Glob_intersect ''x.*'' ''!*.y'' True = Inr (Some ''!x.y'')"
proof (intro conjI impI)
  assume h: "Glob_intersect A B r = Inr (Some s)"
  then obtain na nb where s: "Glob_split A True = Inr na" "Glob_split B True = Inr nb"
    by (auto simp: Glob_intersect_def bindE_def split: sum.splits)
  with h obtain x xs where i: "intersect_loop na nb = Some (x # xs)"
    and e: "s = bang_of A na B nb r @ joinNotes (x # xs)"
    by (cases "intersect_loop na nb"; cases "the (intersect_loop na nb)")
       (auto simp: Glob_intersect_def bindE_def split: if_splits)
  from intersect_loop_first [OF i Glob_split_ok [OF s(1)] Glob_split_ok [OF s(2)]]
  have x: "x \<noteq> []" "take 1 x \<noteq> ''!''" using note_ok_first by auto
  have j: "take 1 (joinNotes (x # xs)) \<noteq> ''!''" "joinNotes (x # xs) \<noteq> []"
    using joinNotes_first [OF x(1), of xs] x by auto
  have "(take 1 s = ''!'') = (bang_of A na B nb r = ''!'')"
    using bang_of_cases [of A na B nb r] e j by auto
  then have "(take 1 s = ''!'') =
           (if r then take 1 A = ''!'' \<or> take 1 B = ''!''
            else (take 1 A = ''!'' \<and> take 1 B = ''!'')
                 \<or> (length nb < length na \<and> take 1 A = ''!'')
                 \<or> (length na < length nb \<and> take 1 B = ''!''))"
    by (simp add: bang_of_def)
  with s show "\<exists>na nb. Glob_split A True = Inr na \<and> Glob_split B True = Inr nb \<and>
         (take 1 s = ''!'') =
           (if r then take 1 A = ''!'' \<or> take 1 B = ''!''
            else (take 1 A = ''!'' \<and> take 1 B = ''!'')
                 \<or> (length nb < length na \<and> take 1 A = ''!'')
                 \<or> (length na < length nb \<and> take 1 B = ''!''))"
    by blast
next
  show "Glob_intersect ''x.*'' ''!*.y'' False = Inr (Some ''!x.y'')" by code_simp
next
  show "Glob_intersect ''x.*'' ''!*.y'' True = Inr (Some ''!x.y'')" by code_simp
qed

theorem intersect_negation_witness:
  "Glob_intersect ''!x.y.z'' ''x.*'' False = Inr (Some ''!x.y.z'')
   \<and> Glob_split ''!x.y.z'' True = Inr [''x'', ''y'', ''z'']
   \<and> Glob_split ''x.*'' True = Inr [''x'']"
proof -
  have 1: "Glob_intersect ''!x.y.z'' ''x.*'' False = Inr (Some ''!x.y.z'')" by code_simp
  have 2: "Glob_split ''!x.y.z'' True = Inr [''x'', ''y'', ''z'']"
    "Glob_split ''x.*'' True = Inr [''x'']" by code_simp+
  from intersect_negation [of "''!x.y.z''" "''x.*''" False "''!x.y.z''"] 1 2
  show ?thesis by simp
qed

text \<open>
  Claim C1 as stated fails: in loose mode \<^verbatim>\<open>intersect('x.*', '!*.y')\<close> is not
  \<^verbatim>\<open>'x.y'\<close>, a negated shorter side does not make the result negated, and a negated
  longer side does.
\<close>

theorem intersect_loose_shorter_counterexample:
  "Glob_intersect ''x.*'' ''!*.y'' False \<noteq> Inr (Some ''x.y'')
   \<and> Glob_intersect ''!x'' ''x.y.z'' False = Inr (Some ''x.y.z'')
   \<and> Glob_intersect ''x'' ''!x.y.z'' False = Inr (Some ''!x.y.z'')"
  by code_simp

text \<open>
  Claim C2. \<^verbatim>\<open>covers\<close> is reflexive: for every valid pattern P, \<^verbatim>\<open>covers(P, P)\<close> is true; and
  it is transitive on non-negated valid patterns: if \<^verbatim>\<open>covers(A, B)\<close> and \<^verbatim>\<open>covers(B, C)\<close>
  then \<^verbatim>\<open>covers(A, C)\<close>.
\<close>

theorem covers_reflexive_transitive:
  "(isValid P \<longrightarrow> covers P P = Inr True)
   \<and> (isValid A \<and> isValid B \<and> isValid C
        \<and> take 1 A \<noteq> ''!'' \<and> take 1 B \<noteq> ''!'' \<and> take 1 C \<noteq> ''!''
        \<and> covers A B = Inr True \<and> covers B C = Inr True
      \<longrightarrow> covers A C = Inr True)"
proof (intro conjI impI)
  assume "isValid P"
  from covers_valid [OF this this] show "covers P P = Inr True"
    by (auto simp: covers_loop_refl)
next
  assume h: "isValid A \<and> isValid B \<and> isValid C
        \<and> take 1 A \<noteq> ''!'' \<and> take 1 B \<noteq> ''!'' \<and> take 1 C \<noteq> ''!''
        \<and> covers A B = Inr True \<and> covers B C = Inr True"
  from h covers_valid [of A B] obtain ga gb where ab: "Glob_new A = Inr ga" "Glob_new B = Inr gb"
    "\<not> isNegated ga" "covers_loop coversNote (levels ga) (levels gb) = Inr True"
    by (auto split: if_splits)
  from h covers_valid [of B C] ab obtain gc where bc: "Glob_new C = Inr gc"
    "covers_loop coversNote (levels gb) (levels gc) = Inr True"
    by (auto split: if_splits)
  from covers_loop_trans [OF ab(4) bc(2)] h covers_valid [of A C] ab bc
  show "covers A C = Inr True" by auto
qed

theorem covers_reflexive_transitive_witness:
  "covers ''x[*].y'' ''x[*].y'' = Inr True
   \<and> covers ''*'' ''x.*.z'' = Inr True \<and> covers ''x.*.z'' ''x.y.z'' = Inr True
   \<and> covers ''*'' ''x.y.z'' = Inr True"
proof -
  have v: "isValid ''x[*].y''" "isValid ''*''" "isValid ''x.*.z''" "isValid ''x.y.z''"
    by code_simp+
  have c: "covers ''*'' ''x.*.z'' = Inr True" "covers ''x.*.z'' ''x.y.z'' = Inr True"
    by code_simp+
  from covers_reflexive_transitive [of "''x[*].y''" "''*''" "''x.*.z''" "''x.y.z''"] v c
  show ?thesis by simp
qed

text \<open>
  Claim C4. For valid patterns A and B where A is negated and has strictly more notes
  than B, \<^verbatim>\<open>covers(A, B)\<close> is false, as for \<^verbatim>\<open>'!x.*.*'\<close> and \<^verbatim>\<open>'!x.*'\<close>.
\<close>

theorem negated_longer_never_covers:
  assumes "isValid A" "isValid B" "Glob_new A = Inr a" "Glob_new B = Inr b"
    and "isNegated a" "length (levels b) < length (levels a)"
  shows "covers A B = Inr False"
  using covers_valid [OF assms(1,2)] assms(3-) by auto

theorem negated_longer_never_covers_witness:
  "covers ''!x.*.*'' ''!x.*'' = Inr False"
proof -
  have v: "isValid ''!x.*.*''" "isValid ''!x.*''" by code_simp+
  have g: "Glob_new ''!x.*.*'' = Inr \<lparr> glob = ''!x.*.*'', absGlob = ''x.*.*'', isNegated = True,
              isArrayGlob = False, levels = [''x'', ''*'', ''*''] \<rparr>"
     "Glob_new ''!x.*'' = Inr \<lparr> glob = ''!x.*'', absGlob = ''x.*'', isNegated = True,
              isArrayGlob = False, levels = [''x'', ''*''] \<rparr>"
    by code_simp+
  from negated_longer_never_covers [OF v g] show ?thesis by simp
qed




text \<open>
  Claim C10. For every value that is not a string, \<^verbatim>\<open>Glob.isValid\<close> returns false and
  raises nothing: the test of the type comes first, so the value is never converted to
  a string (which would accept the array \<^verbatim>\<open>['x']\<close> and throw on a symbol).
\<close>

theorem isValid_non_string:
  assumes "\<forall>s. g \<noteq> JString s"
  shows "Glob_isValid num g = Inr False"
  using assms by (cases g) (simp_all add: Glob_isValid_def)

theorem isValid_non_string_witness:
  "Glob_isValid (\<lambda>n::nat. ''1'') (JArray [JString ''x'']) = Inr False
   \<and> RegExp_test reVALIDATOR (\<lambda>n::nat. ''1'') (JArray [JString ''x'']) = Inr True
   \<and> Glob_isValid (\<lambda>n::nat. ''1'') JSymbol = Inr False
   \<and> RegExp_test reVALIDATOR (\<lambda>n::nat. ''1'') JSymbol = Inl TypeError"
proof -
  have 1: "\<forall>s. (JArray [JString ''x''] :: nat jsval) \<noteq> JString s" by simp
  have 2: "\<forall>s. (JSymbol :: nat jsval) \<noteq> JString s" by simp
  have 3: "RegExp_test reVALIDATOR (\<lambda>n::nat. ''1'') (JArray [JString ''x'']) = Inr True"
    "RegExp_test reVALIDATOR (\<lambda>n::nat. ''1'') JSymbol = Inl TypeError"
    by code_simp+
  from isValid_non_string [OF 1] isValid_non_string [OF 2] 3 show ?thesis by simp
qed

text \<open>
  Claim C7. \<^verbatim>\<open>sort\<close> of \<^verbatim>\<open>['![0][1]', '![0][*]', '![0][3]', '![*][2]']\<close> is
  \<^verbatim>\<open>['![0][3]', '![*][2]', '![0][1]', '![0][*]']\<close>: the indexed negated items of the same
  array slot come by descending index and the \<^verbatim>\<open>[*]\<close> form last. \<^verbatim>\<open>compare\<close> orders these
  four globs strictly and consistently, so every stable sort gives this list.
\<close>

theorem sort_array_item_globs:
  "Glob_sort [''![0][1]'', ''![0][*]'', ''![0][3]'', ''![*][2]'']
     = Inr [''![0][3]'', ''![*][2]'', ''![0][1]'', ''![0][*]'']
   \<and> list_all (\<lambda>(x, y). Glob_compare x y = Inr (- 1) \<and> Glob_compare y x = Inr 1)
       [(''![0][3]'', ''![*][2]''), (''![0][3]'', ''![0][1]''), (''![0][3]'', ''![0][*]''),
        (''![*][2]'', ''![0][1]''), (''![*][2]'', ''![0][*]''), (''![0][1]'', ''![0][*]'')]"
  by code_simp

text \<open>
  Claim C6. \<^verbatim>\<open>normalize(['*', 'car.model', '!car.*'])\<close> is
  \<^verbatim>\<open>['*', '!car.*', 'car.model']\<close> in loose mode and \<^verbatim>\<open>['*', '!car.*']\<close> in restrictive
  mode.
\<close>

theorem normalize_restrictive_vs_loose:
  "Glob_normalize [''*'', ''car.model'', ''!car.*''] False
     = Some (Inr [''*'', ''!car.*'', ''car.model''])
   \<and> Glob_normalize [''*'', ''car.model'', ''!car.*''] True = Some (Inr [''*'', ''!car.*''])"
  by code_simp

text \<open>
  Claim C3 (idempotence of \<^verbatim>\<open>normalize\<close>) does not hold of the code. A duplicate marks its
  glob string as ignored, which hides the copy that stays in the list from the globs
  it covers: \<^verbatim>\<open>normalize(['x.y', 'x', 'x'])\<close> keeps the redundant \<^verbatim>\<open>'x.y'\<close>, and normalizing
  the result once more drops it. Both modes do so.
\<close>

theorem normalize_not_idempotent:
  "Glob_normalize [''x.y'', ''x'', ''x''] False = Some (Inr [''x'', ''x.y''])
   \<and> Glob_normalize [''x'', ''x.y''] False = Some (Inr [''x''])
   \<and> Glob_normalize [''x.y'', ''x'', ''x''] True = Some (Inr [''x'', ''x.y''])
   \<and> Glob_normalize [''x'', ''x.y''] True = Some (Inr [''x''])"
  by code_simp




text \<open>
  Claim C9. \<^verbatim>\<open>normalize\<close> never mutates its input. After any number of passes of a call on
  the array \<open>p\<close>, whether the call ends or goes on for ever (as it does on
  \<^verbatim>\<open>['x', '*.y', '!*.y.z']\<close>, until the engine's stack is exhausted), every array that
  was there before the call, \<open>p\<close> among them, holds the same elements in the same
  order; and when the call ends, a returned list is a new array, holding the result of
  \<open>Glob_normalize\<close> on the elements of \<open>p\<close>.
\<close>

theorem normalize_does_not_mutate:
  assumes "strings_at h p = Some L"
  shows "(\<forall>q. q < length h \<longrightarrow> snd (normalize_heap_run n h p r) ! q = h ! q)
       \<and> strings_at (snd (normalize_heap_run n h p r)) p = Some L
       \<and> (\<forall>res h'. normalize_heap h p r = Some (res, h') \<longrightarrow>
             (\<forall>q. q < length h \<longrightarrow> h' ! q = h ! q) \<and> strings_at h' p = Some L
             \<and> (\<forall>q. res = Inr q \<longrightarrow>
                   length h \<le> q \<and> q \<noteq> p
                   \<and> (\<exists>xs. strings_at h' q = Some xs
                            \<and> Glob_normalize L r = Some (Inr xs))))"
proof (intro conjI allI impI)
  from normalize_heap_run_frame [OF assms, of n r]
  have e: "extends h (snd (normalize_heap_run n h p r))" by simp
  show "strings_at (snd (normalize_heap_run n h p r)) p = Some L"
    by (rule extends_strings_at [OF e assms])
  fix q
  assume "q < length h"
  with e show "snd (normalize_heap_run n h p r) ! q = h ! q" by (rule extends_nth)
next
  fix res h'
  assume run: "normalize_heap h p r = Some (res, h')"
  from normalize_heap_frame [OF run] assms
  have e: "extends h h'"
    and r: "case res of
            Inl e \<Rightarrow> Glob_normalize L r = Some (Inl e)
          | Inr q \<Rightarrow> length h \<le> q
                     \<and> (\<exists>xs. strings_at h' q = Some xs \<and> Glob_normalize L r = Some (Inr xs))"
    by (auto simp: frame_ok_def split: sum.splits)
  from assms have p: "p < length h" by (simp add: strings_at_def split: if_splits)
  show "strings_at h' p = Some L" by (rule extends_strings_at [OF e assms])
  {
    fix q
    assume "q < length h"
    with e show "h' ! q = h ! q" by (rule extends_nth)
  }
  {
    fix q
    assume "res = Inr q"
    with r p show "length h \<le> q" "q \<noteq> p"
      "\<exists>xs. strings_at h' q = Some xs \<and> Glob_normalize L r = Some (Inr xs)"
      by auto
  }
qed

theorem normalize_does_not_mutate_witness:
  "strings_at (snd (normalize_heap_run 3 [Strings [''x'', ''*.y'', ''!*.y.z'']] 0 False)) 0
     = Some [''x'', ''*.y'', ''!*.y.z'']
   \<and> Glob_normalize [''x'', ''*.y'', ''!*.y.z''] False = None
   \<and> normalize_heap [Strings [''car.*'', ''!*.model'']] 0 False
     = Some (Inr 7,
         [Strings [''car.*'', ''!*.model''], Strings [''car.*'', ''!*.model''],
          Inspections [\<lparr>glob = ''car'', absGlob = ''car'', isNegated = False, isArrayGlob = False\<rparr>,
                       \<lparr>glob = ''!*.model'', absGlob = ''*.model'', isNegated = True,
                         isArrayGlob = False\<rparr>],
          Strings [''car''], Strings [''car'', ''!car.model''],
          Strings [''car'', ''!car.model''],
          Inspections [\<lparr>glob = ''car'', absGlob = ''car'', isNegated = False, isArrayGlob = False\<rparr>,
                       \<lparr>glob = ''!car.model'', absGlob = ''car.model'', isNegated = True,
                         isArrayGlob = False\<rparr>],
          Strings [''car'', ''!car.model'']])
   \<and> Glob_normalize [''car.*'', ''!*.model''] False = Some (Inr [''car'', ''!car.model''])"
proof -
  have s: "strings_at [Strings [''x'', ''*.y'', ''!*.y.z'']] 0 = Some [''x'', ''*.y'', ''!*.y.z'']"
    "strings_at [Strings [''car.*'', ''!*.model'']] 0 = Some [''car.*'', ''!*.model'']"
    by (simp_all add: strings_at_def)
  have n: "normalize_heap [Strings [''car.*'', ''!*.model'']] 0 False
     = Some (Inr 7,
         [Strings [''car.*'', ''!*.model''], Strings [''car.*'', ''!*.model''],
          Inspections [\<lparr>glob = ''car'', absGlob = ''car'', isNegated = False, isArrayGlob = False\<rparr>,
                       \<lparr>glob = ''!*.model'', absGlob = ''*.model'', isNegated = True,
                         isArrayGlob = False\<rparr>],
          Strings [''car''], Strings [''car'', ''!car.model''],
          Strings [''car'', ''!car.model''],
          Inspections [\<lparr>glob = ''car'', absGlob = ''car'', isNegated = False, isArrayGlob = False\<rparr>,
                       \<lparr>glob = ''!car.model'', absGlob = ''car.model'', isNegated = True,
                         isArrayGlob = False\<rparr>],
          Strings [''car'', ''!car.model'']])"
    by code_simp
  from normalize_does_not_mutate [OF s(1), of 3 False] normalize_does_not_mutate [OF s(2), of 0 False]
    n normalize_never_returns
  show ?thesis by (simp add: strings_at_def)
qed

end
